theory Spec2Isabelle
  imports Main "HOL-Library.AList"
begin

section \<open>Values, records and record types\<close>

text \<open>
  The create dispatcher of \<^verbatim>\<open>lib/dispatch/create.js\<close> works on JavaScript objects.
  A value is one of the JSON-like shapes a record field can hold; an object is an
  association list in insertion order, so that \<^verbatim>\<open>for (field in fields)\<close> and
  \<^verbatim>\<open>Object.keys\<close> have an order to follow. (Keys that look like array indices,
  which JavaScript enumerates first, are not told apart.)
\<close>

datatype jsval = JNull | JUndefined | JBool bool | JNum int | JStr string | JArr "jsval list"

type_synonym jsobject = "(string \<times> jsval) list"

text \<open>\<^verbatim>\<open>field in record\<close>\<close>

definition has_field :: "string \<Rightarrow> jsobject \<Rightarrow> bool" where
  "has_field field r = (map_of r field \<noteq> None)"

text \<open>\<^verbatim>\<open>record[field]\<close>: a missing property reads as \<^verbatim>\<open>undefined\<close>.\<close>

definition get_field :: "jsobject \<Rightarrow> string \<Rightarrow> jsval" where
  "get_field r field = (case map_of r field of None \<Rightarrow> JUndefined | Some v \<Rightarrow> v)"

text \<open>
  A field definition, with the keys the dispatcher reads. A key that is absent from the
  definition object is \<open>None\<close>: the dispatcher tests \<^verbatim>\<open>link\<close> and
  \<^verbatim>\<open>denormalizedInverse\<close> with \<^verbatim>\<open>in\<close> (presence), and \<^verbatim>\<open>inverse\<close> and
  \<^verbatim>\<open>isArray\<close> by truthiness.
\<close>

record field_def =
  fd_link :: "string option"
  fd_inverse :: "string option"
  fd_isArray :: "bool option"
  fd_denormalizedInverse :: "bool option"

type_synonym fields = "(string \<times> field_def) list"

text \<open>
  Modelled from the spec: the module \<^verbatim>\<open>common/constants\<close> is not among the sources; its
  \<^verbatim>\<open>primary\<close> constant is the name of the field that holds a record's primary key.
\<close>

definition primaryKey :: string where
  "primaryKey = ''id''"

section \<open>Errors and promises\<close>

text \<open>
  Modelled from the spec: \<^verbatim>\<open>common/message\<close> is not among the sources; a message is kept
  as the pair of its identifier and the language it was asked in (\<open>None\<close> when the
  language variable is still \<^verbatim>\<open>undefined\<close>).
\<close>

datatype message_id = CreateRecordsInvalid | CreateRecordsFail | CreateRecordMissingID

datatype error =
    BadRequestError message_id "string option"
  | Error message_id "string option"
  | TypeError
  | External nat

text \<open>
  The adapter's methods and \<^verbatim>\<open>checkLinks\<close> return a promise; what the dispatcher sees
  of it is how it settles.
\<close>

datatype 'a promise = Resolved 'a | Rejected error

text \<open>
  \<^verbatim>\<open>Promise.all\<close>: the values in order, or a rejection. Which of several rejections
  settles first is not modelled; the one at the lowest index is taken.
\<close>

fun promise_all :: "'a promise list \<Rightarrow> error + 'a list" where
  "promise_all [] = Inr []"
| "promise_all (Rejected e # ps) = Inl e"
| "promise_all (Resolved v # ps) =
     (case promise_all ps of Inl e \<Rightarrow> Inl e | Inr vs \<Rightarrow> Inr (v # vs))"

section \<open>Update operations\<close>

text \<open>
  Modelled from the spec: an Update Operation is a target primary key with, per field,
  either ``add identifier to array field'' or ``replace scalar field with identifier''.
  The record type it applies to is the key under which it is filed in \<open>updates\<close>.
\<close>

datatype mutation = AddToArray "jsval list" | ReplaceScalar jsval

record update_op =
  target :: jsval
  fieldMutations :: "(string \<times> mutation) list"

type_synonym updates = "(string \<times> update_op list) list"

type_synonym idCache = "(string \<times> (jsval \<times> nat) list) list"

text \<open>\<^verbatim>\<open>updates[type]\<close>, read as a list (an absent entry has no operations).\<close>

definition pending :: "updates \<Rightarrow> string \<Rightarrow> update_op list" where
  "pending updates type = (case map_of updates type of None \<Rightarrow> [] | Some ops \<Rightarrow> ops)"

definition cached :: "idCache \<Rightarrow> string \<Rightarrow> (jsval \<times> nat) list" where
  "cached cache type = (case map_of cache type of None \<Rightarrow> [] | Some ids \<Rightarrow> ids)"

text \<open>
  Modelled from the spec: \<^verbatim>\<open>update_helpers.getUpdate\<close> is not among the sources. It is
  the lookup-or-create keyed by (linked type, target primary key): the cache remembers,
  for a target that already has an operation, where in \<open>updates[type]\<close> it is; a new
  target gets a new operation at the end. The position stands for the object reference
  the JavaScript returns.
\<close>

definition getUpdate :: "string \<Rightarrow> jsval \<Rightarrow> updates \<Rightarrow> idCache \<Rightarrow> nat \<times> updates \<times> idCache" where
  "getUpdate type ident updates cache =
     (case map_of (cached cache type) ident of
        Some n \<Rightarrow> (n, updates, cache)
      | None \<Rightarrow>
          (let ops = pending updates type in
           (length ops,
            AList.update type (ops @ [\<lparr>target = ident, fieldMutations = []\<rparr>]) updates,
            AList.update type (cached cache type @ [(ident, length ops)]) cache)))"

text \<open>
  Modelled from the spec: \<^verbatim>\<open>update_helpers.addId\<close> is not among the sources. It adds
  the identifier to the operation's mutation of \<open>field\<close>: appended when the field is
  array-valued, replacing when it is singular.
\<close>

definition addId :: "jsval \<Rightarrow> update_op \<Rightarrow> string \<Rightarrow> bool option \<Rightarrow> update_op" where
  "addId ident update field isArray =
     (if isArray = Some True
      then update\<lparr>fieldMutations :=
             AList.update field
               (AddToArray ((case map_of (fieldMutations update) field of
                               Some (AddToArray ids) \<Rightarrow> ids | _ \<Rightarrow> []) @ [ident]))
               (fieldMutations update)\<rparr>
      else update\<lparr>fieldMutations :=
             AList.update field (ReplaceScalar ident) (fieldMutations update)\<rparr>)"

section \<open>The instance, the adapter and the log\<close>

text \<open>
  Records are objects shared with the caller and with the hooks, so they live in a
  store and are passed by address.
\<close>

type_synonym addr = nat

type_synonym heap = "addr \<Rightarrow> jsobject"

record event_data =
  ev_create :: "(string \<times> jsobject list) list"
  ev_update :: "(string \<times> update_op list) list option"

text \<open>
  Every call that leaves the dispatcher is logged with its arguments (records as they
  stand at the moment of the call) and with its outcome. \<open>BeginTransaction\<close> has no
  record argument; its entry notes the payload records as they stand when the
  transaction is asked for.
\<close>

datatype event =
    BeginTransaction "jsobject list" "error option"
  | Transform jsobject "error + addr promise"
  | Enforce jsobject "error option"
  | CheckLinks jsobject "unit promise"
  | ValidateRecords "jsobject list" "error option"
  | TxCreate string "jsobject list" "jsobject list promise"
  | TxUpdate string "update_op list" "unit promise"
  | EndTransaction "error option" "unit promise"
  | Emit event_data

record state =
  heap :: heap
  trace :: "event list"
  response_records :: "jsobject list option"

definition log :: "event \<Rightarrow> state \<Rightarrow> state" where
  "log e s = s\<lparr>trace := trace s @ [e]\<rparr>"

record meta =
  language :: "string option"

record request =
  req_type :: string
  payload :: "addr list option"
  req_meta :: meta

text \<open>The transaction object the adapter hands out.\<close>

record txn =
  tx_create :: "string \<Rightarrow> jsobject list \<Rightarrow> jsobject list promise"
  tx_update :: "string \<Rightarrow> update_op list \<Rightarrow> unit promise"
  tx_endTransaction :: "error option \<Rightarrow> unit promise"

text \<open>
  An input transform gets the record and may write to the store; it throws (\<open>Inl\<close>),
  or returns a record or a promise of one.
\<close>

type_synonym transform = "heap \<Rightarrow> addr \<Rightarrow> heap \<times> (error + addr promise)"

text \<open>
  The instance as one request sees it. \<^verbatim>\<open>enforce\<close>, \<^verbatim>\<open>checkLinks\<close> and
  \<^verbatim>\<open>validateRecords\<close> are modules of the repository that are not among the sources:
  they are parameters. \<^verbatim>\<open>enforce\<close> is called for its effect on the record (its return
  value is dropped), so it may write to the store, and it fails by throwing.
\<close>

record env =
  recordTypes :: "(string \<times> fields) list"
  transforms :: "(string \<times> transform option) list"
  enforce :: "heap \<Rightarrow> addr \<Rightarrow> heap \<times> error option"
  checkLinks :: "jsobject \<Rightarrow> unit promise"
  validateRecords :: "jsobject list \<Rightarrow> error option"
  beginTransaction :: "txn promise"

text \<open>
  Modelled from the spec: \<^verbatim>\<open>common/array/map\<close> is not among the sources. It calls the
  function on each element in index order, and a call that throws ends it.
\<close>

fun map_calls :: "('a \<Rightarrow> state \<Rightarrow> state \<times> (error + 'b)) \<Rightarrow> 'a list \<Rightarrow> state \<Rightarrow> state \<times> (error + 'b list)" where
  "map_calls f [] s = (s, Inr [])"
| "map_calls f (x # xs) s =
     (case f x s of
        (s', Inl e) \<Rightarrow> (s', Inl e)
      | (s', Inr y) \<Rightarrow>
          (case map_calls f xs s' of
             (s'', Inl e) \<Rightarrow> (s'', Inl e)
           | (s'', Inr ys) \<Rightarrow> (s'', Inr (y # ys))))"

section \<open>The create dispatcher\<close>

subsection \<open>Payload check, link fields, denormalized inverse fields\<close>

text \<open>\<^verbatim>\<open>delete record[field]\<close>\<close>

definition delete_field :: "string \<Rightarrow> jsobject \<Rightarrow> jsobject" where
  "delete_field field r = AList.delete field r"

text \<open>
  \<^verbatim>\<open>for (i = records.length; i--;) delete records[i][field]\<close>, called on the
  reversed list of records.
\<close>

fun delete_loop :: "string \<Rightarrow> addr list \<Rightarrow> heap \<Rightarrow> heap" where
  "delete_loop field [] h = h"
| "delete_loop field (a # as) h = delete_loop field as (h(a := delete_field field (h a)))"

text \<open>\<^verbatim>\<open>for (field in fields)\<close>: collects the link fields and strips the denormalized ones.\<close>

fun fields_loop :: "fields \<Rightarrow> addr list \<Rightarrow> string list \<times> heap \<Rightarrow> string list \<times> heap" where
  "fields_loop [] records lh = lh"
| "fields_loop ((field, fd) # rest) records (links, h) =
     fields_loop rest records
       (if fd_link fd \<noteq> None then links @ [field] else links,
        if fd_denormalizedInverse fd \<noteq> None then delete_loop field (rev records) h else h)"

text \<open>
  The first handler. \<^verbatim>\<open>language\<close> is assigned after the payload check, so the
  message of that check is asked for with an undefined language. A record type that is
  not registered has \<^verbatim>\<open>fields\<close> undefined, over which the loop does not run.
\<close>

definition handler_payload ::
  "env \<Rightarrow> request \<Rightarrow> state \<Rightarrow>
   state \<times> (error + addr list \<times> fields \<times> string list \<times> transform option option)" where
  "handler_payload env req s =
     (case payload req of
        None \<Rightarrow> (s, Inl (BadRequestError CreateRecordsInvalid None))
      | Some records \<Rightarrow>
          if records = [] then (s, Inl (BadRequestError CreateRecordsInvalid None))
          else
            (let fds = (case map_of (recordTypes env) (req_type req) of
                             None \<Rightarrow> [] | Some fs \<Rightarrow> fs);
                 lh = fields_loop fds records ([], heap s)
             in (s\<lparr>heap := snd lh\<rparr>,
                 Inr (records, fds, fst lh, map_of (transforms env) (req_type req)))))"

text \<open>\<^verbatim>\<open>adapter.beginTransaction()\<close>\<close>

definition handler_begin :: "env \<Rightarrow> addr list \<Rightarrow> state \<Rightarrow> state \<times> (error + txn)" where
  "handler_begin env records s =
     (case beginTransaction env of
        Rejected e \<Rightarrow> (log (BeginTransaction (map (heap s) records) (Some e)) s, Inl e)
      | Resolved t \<Rightarrow> (log (BeginTransaction (map (heap s) records) None) s, Inr t))"

subsection \<open>Input transform\<close>

definition transform_call :: "transform \<Rightarrow> addr \<Rightarrow> state \<Rightarrow> state \<times> (error + addr promise)" where
  "transform_call f a s =
     (case f (heap s) a of
        (h', out) \<Rightarrow>
          (log (Transform (heap s a) out) (s\<lparr>heap := h'\<rparr>),
           case out of Inl e \<Rightarrow> Inl e | Inr p \<Rightarrow> Inr p))"

text \<open>
  The second handler. When the type has no entry in \<^verbatim>\<open>transforms\<close>, reading
  \<^verbatim>\<open>transform[0]\<close> throws.
\<close>

definition handler_transform ::
  "transform option option \<Rightarrow> addr list \<Rightarrow> state \<Rightarrow> state \<times> (error + addr list)" where
  "handler_transform transform records s =
     (case transform of
        None \<Rightarrow> (s, Inl TypeError)
      | Some None \<Rightarrow> (s, Inr records)
      | Some (Some f) \<Rightarrow>
          (case map_calls (transform_call f) records s of
             (s', Inl e) \<Rightarrow> (s', Inl e)
           | (s', Inr ps) \<Rightarrow> (s', promise_all ps)))"

subsection \<open>Enforcement and link check\<close>

definition enforce_call :: "env \<Rightarrow> addr \<Rightarrow> state \<Rightarrow> state \<times> (error + addr promise)" where
  "enforce_call env a s =
     (case enforce env (heap s) a of
        (h', Some e) \<Rightarrow> (log (Enforce (heap s a) (Some e)) (s\<lparr>heap := h'\<rparr>), Inl e)
      | (h', None) \<Rightarrow>
          (log (CheckLinks (h' a) (checkLinks env (h' a)))
             (log (Enforce (heap s a) None) (s\<lparr>heap := h'\<rparr>)),
           Inr (case checkLinks env (h' a) of
                  Rejected e \<Rightarrow> Rejected e
                | Resolved u \<Rightarrow> Resolved a)))"

definition handler_enforce :: "env \<Rightarrow> addr list \<Rightarrow> state \<Rightarrow> state \<times> (error + addr list)" where
  "handler_enforce env records s =
     (case map_calls (enforce_call env) records s of
        (s', Inl e) \<Rightarrow> (s', Inl e)
      | (s', Inr ps) \<Rightarrow> (s', promise_all ps))"

subsection \<open>Backend create\<close>

definition handler_create ::
  "env \<Rightarrow> txn \<Rightarrow> string \<Rightarrow> addr list \<Rightarrow> state \<Rightarrow> state \<times> (error + jsobject list)" where
  "handler_create env t type records s =
     (let vals = map (heap s) records in
      case validateRecords env vals of
        Some e \<Rightarrow> (log (ValidateRecords vals (Some e)) s, Inl e)
      | None \<Rightarrow>
          (log (TxCreate type vals (tx_create t type vals)) (log (ValidateRecords vals None) s),
           case tx_create t type vals of
             Rejected e \<Rightarrow> Inl e
           | Resolved created \<Rightarrow> Inr created))"

subsection \<open>Derived updates\<close>

text \<open>\<^verbatim>\<open>Array.isArray(record[field]) ? record[field] : [ record[field] ]\<close>\<close>

definition linked_ids :: "jsval \<Rightarrow> jsval list" where
  "linked_ids v = (case v of JArr ids \<Rightarrow> ids | _ \<Rightarrow> [v])"

text \<open>
  \<^verbatim>\<open>addId(record[primaryKey], getUpdate(linkedType, id, updates, idCache),
  inverseField, linkedIsArray)\<close>: the operation found or made by \<open>getUpdate\<close> is
  changed where it is.
\<close>

definition add_reference ::
  "jsval \<Rightarrow> string \<Rightarrow> jsval \<Rightarrow> string \<Rightarrow> bool option \<Rightarrow> updates \<times> idCache \<Rightarrow> updates \<times> idCache" where
  "add_reference pk linkedType ident inverseField linkedIsArray uc =
     (case getUpdate linkedType ident (fst uc) (snd uc) of
        (n, updates', cache') \<Rightarrow>
          (AList.update linkedType
             ((pending updates' linkedType)
                [n := addId pk (pending updates' linkedType ! n) inverseField linkedIsArray])
             updates',
           cache'))"

text \<open>\<^verbatim>\<open>for (k = linkedIds.length; k--;)\<close>, called on the reversed list of identifiers.\<close>

fun id_loop ::
  "jsval \<Rightarrow> string \<Rightarrow> string \<Rightarrow> bool option \<Rightarrow> jsval list \<Rightarrow> updates \<times> idCache \<Rightarrow> updates \<times> idCache" where
  "id_loop pk linkedType inverseField linkedIsArray [] uc = uc"
| "id_loop pk linkedType inverseField linkedIsArray (ident # ids) uc =
     id_loop pk linkedType inverseField linkedIsArray ids
       (if ident \<noteq> JNull then add_reference pk linkedType ident inverseField linkedIsArray uc else uc)"

text \<open>\<^verbatim>\<open>!inverseField\<close>: absent, or the empty string.\<close>

definition no_inverse :: "string option \<Rightarrow> bool" where
  "no_inverse inverseField = (inverseField = None \<or> inverseField = Some [])"

text \<open>
  The body of the loop over \<^verbatim>\<open>links\<close> for one record and one link field. Reading a
  property of \<^verbatim>\<open>undefined\<close> (a linked type that is not registered, an inverse field
  that is not declared on it) throws a \<^verbatim>\<open>TypeError\<close>.
\<close>

definition link_step ::
  "env \<Rightarrow> fields \<Rightarrow> jsobject \<Rightarrow> string \<Rightarrow> updates \<times> idCache \<Rightarrow> error + updates \<times> idCache" where
  "link_step env fds r field uc =
     (case map_of fds field of
        None \<Rightarrow> Inl TypeError
      | Some fd \<Rightarrow>
          if \<not> has_field field r \<or> no_inverse (fd_inverse fd) then Inr uc
          else
            (case fd_link fd of
               None \<Rightarrow> Inl TypeError
             | Some linkedType \<Rightarrow>
                 (case map_of (recordTypes env) linkedType of
                    None \<Rightarrow> Inl TypeError
                  | Some linkedFields \<Rightarrow>
                      (case map_of linkedFields (the (fd_inverse fd)) of
                         None \<Rightarrow> Inl TypeError
                       | Some ifd \<Rightarrow>
                           Inr (id_loop (get_field r primaryKey) linkedType (the (fd_inverse fd))
                                  (fd_isArray ifd)
                                  (rev (linked_ids (get_field r field)))
                                  (case map_of (fst uc) linkedType of
                                     None \<Rightarrow> AList.update linkedType [] (fst uc)
                                   | Some ops \<Rightarrow> fst uc,
                                   case map_of (snd uc) linkedType of
                                     None \<Rightarrow> AList.update linkedType [] (snd uc)
                                   | Some ids \<Rightarrow> snd uc))))))"

text \<open>\<^verbatim>\<open>for (j = links.length; j--;)\<close>, called on the reversed list of link fields.\<close>

fun link_loop ::
  "env \<Rightarrow> fields \<Rightarrow> jsobject \<Rightarrow> string list \<Rightarrow> updates \<times> idCache \<Rightarrow> error + updates \<times> idCache" where
  "link_loop env fds r [] uc = Inr uc"
| "link_loop env fds r (field # rest) uc =
     (case link_step env fds r field uc of
        Inl e \<Rightarrow> Inl e
      | Inr uc' \<Rightarrow> link_loop env fds r rest uc')"

text \<open>\<^verbatim>\<open>for (i = records.length; i--;)\<close>, called on the reversed list of created records.\<close>

fun record_loop ::
  "env \<Rightarrow> fields \<Rightarrow> string list \<Rightarrow> meta \<Rightarrow> jsobject list \<Rightarrow> updates \<times> idCache \<Rightarrow> error + updates \<times> idCache" where
  "record_loop env fds links m [] uc = Inr uc"
| "record_loop env fds links m (r # rs) uc =
     (if \<not> has_field primaryKey r then Inl (Error CreateRecordMissingID (language m))
      else
        (case link_loop env fds r (rev links) uc of
           Inl e \<Rightarrow> Inl e
         | Inr uc' \<Rightarrow> record_loop env fds links m rs uc'))"

text \<open>
  \<^verbatim>\<open>map(Object.keys(updates), ...)\<close>: one \<^verbatim>\<open>transaction.update\<close> call for each type
  that has operations, \<^verbatim>\<open>null\<close> for a type that has none.
\<close>

fun update_calls :: "txn \<Rightarrow> updates \<Rightarrow> string list \<Rightarrow> state \<Rightarrow> state \<times> unit promise list" where
  "update_calls t updates [] s = (s, [])"
| "update_calls t updates (type # types) s =
     (if pending updates type \<noteq> []
      then (case update_calls t updates types
                   (log (TxUpdate type (pending updates type)
                           (tx_update t type (pending updates type))) s) of
              (s', ps) \<Rightarrow> (s', tx_update t type (pending updates type) # ps))
      else (case update_calls t updates types s of
              (s', ps) \<Rightarrow> (s', Resolved () # ps)))"

text \<open>The fifth handler: the created records are published on the response, checked and scanned.\<close>

definition handler_created ::
  "env \<Rightarrow> txn \<Rightarrow> fields \<Rightarrow> string list \<Rightarrow> meta \<Rightarrow> jsobject list \<Rightarrow> state \<Rightarrow> state \<times> (error + updates)" where
  "handler_created env t fds links m createdRecords s =
     (let s1 = s\<lparr>response_records := Some createdRecords\<rparr> in
      if createdRecords = [] then (s1, Inl (BadRequestError CreateRecordsFail (language m)))
      else
        (case record_loop env fds links m (rev createdRecords) ([], []) of
           Inl e \<Rightarrow> (s1, Inl e)
         | Inr uc \<Rightarrow>
             (case update_calls t (fst uc) (map fst (fst uc)) s1 of
                (s2, ps) \<Rightarrow>
                  (s2, case promise_all ps of Inl e \<Rightarrow> Inl e | Inr us \<Rightarrow> Inr (fst uc)))))"

subsection \<open>Commit, abort and the change event\<close>

text \<open>\<^verbatim>\<open>transaction.endTransaction()\<close>\<close>

definition handler_commit :: "txn \<Rightarrow> state \<Rightarrow> state \<times> (error + unit)" where
  "handler_commit t s =
     (log (EndTransaction None (tx_endTransaction t None)) s,
      case tx_endTransaction t None of Rejected e \<Rightarrow> Inl e | Resolved u \<Rightarrow> Inr ())"

text \<open>
  The catch handler: \<^verbatim>\<open>if (transaction) transaction.endTransaction(error); throw error\<close>.
  The promise of the abort call is dropped.
\<close>

definition catch_handler :: "txn option \<Rightarrow> error \<Rightarrow> state \<Rightarrow> state \<times> (error + 'a)" where
  "catch_handler transaction e s =
     (case transaction of
        None \<Rightarrow> (s, Inl e)
      | Some t \<Rightarrow> (log (EndTransaction (Some e) (tx_endTransaction t (Some e))) s, Inl e))"

text \<open>\<^verbatim>\<open>for (currentType in updates)\<close> of the last handler.\<close>

fun event_loop :: "string list \<Rightarrow> updates \<Rightarrow> event_data \<Rightarrow> event_data" where
  "event_loop [] updates ed = ed"
| "event_loop (currentType # types) updates ed =
     (if pending updates currentType = [] then event_loop types updates ed
      else event_loop types updates
             (ed\<lparr>ev_update :=
                   Some (AList.update currentType (pending updates currentType)
                           (case ev_update ed of None \<Rightarrow> [] | Some u \<Rightarrow> u))\<rparr>))"

definition handler_emit :: "string \<Rightarrow> jsobject list \<Rightarrow> updates \<Rightarrow> state \<Rightarrow> state \<times> (error + unit)" where
  "handler_emit type records updates s =
     (log (Emit (event_loop (map fst updates) updates
                   \<lparr>ev_create = [(type, records)], ev_update = None\<rparr>)) s,
      Inr ())"

subsection \<open>The promise chain\<close>

text \<open>The handlers between \<^verbatim>\<open>beginTransaction\<close> and the catch handler.\<close>

definition pipeline ::
  "env \<Rightarrow> txn \<Rightarrow> request \<Rightarrow> fields \<Rightarrow> string list \<Rightarrow> transform option option \<Rightarrow> addr list \<Rightarrow>
   state \<Rightarrow> state \<times> (error + jsobject list \<times> updates)" where
  "pipeline env t req fds links transform records s =
     (case handler_transform transform records s of
        (s1, Inl e) \<Rightarrow> (s1, Inl e)
      | (s1, Inr results) \<Rightarrow>
     (case handler_enforce env results s1 of
        (s2, Inl e) \<Rightarrow> (s2, Inl e)
      | (s2, Inr enforced) \<Rightarrow>
     (case handler_create env t (req_type req) enforced s2 of
        (s3, Inl e) \<Rightarrow> (s3, Inl e)
      | (s3, Inr created) \<Rightarrow>
     (case handler_created env t fds links (req_meta req) created s3 of
        (s4, Inl e) \<Rightarrow> (s4, Inl e)
      | (s4, Inr updates) \<Rightarrow>
     (case handler_commit t s4 of
        (s5, Inl e) \<Rightarrow> (s5, Inl e)
      | (s5, Inr u) \<Rightarrow> (s5, Inr (created, updates)))))))"

definition create :: "env \<Rightarrow> request \<Rightarrow> heap \<Rightarrow> state \<times> (error + unit)" where
  "create env req h =
     (case handler_payload env req \<lparr>heap = h, trace = [], response_records = None\<rparr> of
        (s1, Inl e) \<Rightarrow> catch_handler None e s1
      | (s1, Inr (records, fds, links, transform)) \<Rightarrow>
     (case handler_begin env records s1 of
        (s2, Inl e) \<Rightarrow> catch_handler None e s2
      | (s2, Inr t) \<Rightarrow>
     (case pipeline env t req fds links transform records s2 of
        (s3, Inl e) \<Rightarrow> catch_handler (Some t) e s3
      | (s3, Inr (created, updates)) \<Rightarrow> handler_emit (req_type req) created updates s3)))"

section \<open>Reading the log\<close>

text \<open>The error with which a logged call failed, if it failed.\<close>

fun step_error :: "event \<Rightarrow> error option" where
  "step_error (BeginTransaction snap x) = x"
| "step_error (Transform v (Inl e)) = Some e"
| "step_error (Transform v (Inr (Rejected e))) = Some e"
| "step_error (Transform v (Inr (Resolved a))) = None"
| "step_error (Enforce v x) = x"
| "step_error (CheckLinks v (Rejected e)) = Some e"
| "step_error (CheckLinks v (Resolved u)) = None"
| "step_error (ValidateRecords vs x) = x"
| "step_error (TxCreate ty vs (Rejected e)) = Some e"
| "step_error (TxCreate ty vs (Resolved rs)) = None"
| "step_error (TxUpdate ty ops (Rejected e)) = Some e"
| "step_error (TxUpdate ty ops (Resolved u)) = None"
| "step_error (EndTransaction x (Rejected e)) = Some e"
| "step_error (EndTransaction x (Resolved u)) = None"
| "step_error (Emit ed) = None"


text \<open>The kind of call a log entry stands for.\<close>

datatype call_kind =
  KBegin | KTransform | KEnforce | KCheckLinks | KValidate | KCreate | KUpdate | KEnd | KEmit

fun kind :: "event \<Rightarrow> call_kind" where
  "kind (BeginTransaction snap x) = KBegin"
| "kind (Transform v out) = KTransform"
| "kind (Enforce v x) = KEnforce"
| "kind (CheckLinks v p) = KCheckLinks"
| "kind (ValidateRecords vs x) = KValidate"
| "kind (TxCreate ty vs p) = KCreate"
| "kind (TxUpdate ty ops p) = KUpdate"
| "kind (EndTransaction x p) = KEnd"
| "kind (Emit ed) = KEmit"

text \<open>An abort is \<^verbatim>\<open>endTransaction\<close> called with an error.\<close>

fun is_abort :: "event \<Rightarrow> bool" where
  "is_abort (EndTransaction (Some e) p) = True"
| "is_abort ev = False"

text \<open>A transaction has been opened when \<^verbatim>\<open>beginTransaction\<close> has resolved.\<close>

fun is_opening :: "event \<Rightarrow> bool" where
  "is_opening (BeginTransaction snap None) = True"
| "is_opening ev = False"

definition opened :: "event list \<Rightarrow> bool" where
  "opened tr = list_ex is_opening tr"


text \<open>The \<^verbatim>\<open>transaction.update\<close> calls that a map of pending operations gives rise to.\<close>

definition update_events :: "txn \<Rightarrow> updates \<Rightarrow> string list \<Rightarrow> event list" where
  "update_events t updates types =
     map (\<lambda>type. TxUpdate type (pending updates type) (tx_update t type (pending updates type)))
       (filter (\<lambda>type. pending updates type \<noteq> []) types)"

text \<open>The calls up to the backend create, all of them successful, for \<open>n\<close> records.\<close>

definition pre_write :: "event list \<Rightarrow> event list \<Rightarrow> nat \<Rightarrow> bool" where
  "pre_write T E n =
     ((\<forall>ev\<in>set T. kind ev = KTransform \<and> step_error ev = None) \<and>
      (\<forall>ev\<in>set E. (kind ev = KEnforce \<or> kind ev = KCheckLinks) \<and> step_error ev = None) \<and>
      length (filter (\<lambda>ev. kind ev = KEnforce) E) = n)"

text \<open>
  The shapes the log of the handlers between \<^verbatim>\<open>beginTransaction\<close> and the catch
  handler can take, with the outcome that goes with each.
\<close>

inductive body :: "txn \<Rightarrow> request \<Rightarrow> event list \<Rightarrow> error + jsobject list \<times> updates \<Rightarrow> bool"
  for t :: txn and req :: request where
  transform_failed:
    "\<forall>ev\<in>set T. kind ev = KTransform \<Longrightarrow>
     e = TypeError \<and> T = [] \<or> (\<exists>ev\<in>set T. step_error ev = Some e) \<Longrightarrow>
     body t req T (Inl e)"
| enforce_failed:
    "\<forall>ev\<in>set T. kind ev = KTransform \<and> step_error ev = None \<Longrightarrow>
     \<forall>ev\<in>set E. kind ev = KEnforce \<or> kind ev = KCheckLinks \<Longrightarrow>
     \<exists>ev\<in>set E. step_error ev = Some e \<Longrightarrow>
     body t req (T @ E) (Inl e)"
| validate_failed:
    "pre_write T E (length vs) \<Longrightarrow>
     body t req (T @ E @ [ValidateRecords vs (Some e)]) (Inl e)"
| create_rejected:
    "pre_write T E (length vs) \<Longrightarrow>
     body t req (T @ E @ [ValidateRecords vs None, TxCreate (req_type req) vs (Rejected e)]) (Inl e)"
| created_empty:
    "pre_write T E (length vs) \<Longrightarrow>
     body t req (T @ E @ [ValidateRecords vs None, TxCreate (req_type req) vs (Resolved [])])
       (Inl (BadRequestError CreateRecordsFail (language (req_meta req))))"
| scan_failed:
    "pre_write T E (length vs) \<Longrightarrow> created \<noteq> [] \<Longrightarrow>
     e = Error CreateRecordMissingID (language (req_meta req)) \<or> e = TypeError \<Longrightarrow>
     body t req (T @ E @ [ValidateRecords vs None, TxCreate (req_type req) vs (Resolved created)])
       (Inl e)"
| update_rejected:
    "pre_write T E (length vs) \<Longrightarrow> created \<noteq> [] \<Longrightarrow>
     \<exists>ev\<in>set (update_events t ups (map fst ups)). step_error ev = Some e \<Longrightarrow>
     body t req (T @ E @ [ValidateRecords vs None, TxCreate (req_type req) vs (Resolved created)]
                  @ update_events t ups (map fst ups))
       (Inl e)"
| commit_rejected:
    "pre_write T E (length vs) \<Longrightarrow> created \<noteq> [] \<Longrightarrow>
     \<forall>ev\<in>set (update_events t ups (map fst ups)). step_error ev = None \<Longrightarrow>
     body t req (T @ E @ [ValidateRecords vs None, TxCreate (req_type req) vs (Resolved created)]
                  @ update_events t ups (map fst ups) @ [EndTransaction None (Rejected e)])
       (Inl e)"
| committed:
    "pre_write T E (length vs) \<Longrightarrow> created \<noteq> [] \<Longrightarrow>
     \<forall>ev\<in>set (update_events t ups (map fst ups)). step_error ev = None \<Longrightarrow>
     body t req (T @ E @ [ValidateRecords vs None, TxCreate (req_type req) vs (Resolved created)]
                  @ update_events t ups (map fst ups) @ [EndTransaction None (Resolved ())])
       (Inr (created, ups))"

text \<open>The shapes of the log of a whole request.\<close>

inductive run :: "env \<Rightarrow> request \<Rightarrow> event list \<Rightarrow> error + unit \<Rightarrow> bool"
  for env :: env and req :: request where
  bad_payload:
    "run env req [] (Inl (BadRequestError CreateRecordsInvalid None))"
| begin_rejected:
    "run env req [BeginTransaction snap (Some e)] (Inl e)"
| aborted:
    "beginTransaction env = Resolved t \<Longrightarrow> body t req evs (Inl e) \<Longrightarrow>
     run env req
       (BeginTransaction snap None # evs @ [EndTransaction (Some e) (tx_endTransaction t (Some e))])
       (Inl e)"
| emitted:
    "beginTransaction env = Resolved t \<Longrightarrow> body t req evs (Inr (created, ups)) \<Longrightarrow>
     run env req
       (BeginTransaction snap None # evs @
          [Emit (event_loop (map fst ups) ups
                   \<lparr>ev_create = [(req_type req, created)], ev_update = None\<rparr>)])
       (Inr ())"

section \<open>The payload in the store\<close>





section \<open>Records without links\<close>

text \<open>
  Every link field with a declared inverse is absent from the record, null, or an array
  of nulls.
\<close>

definition null_links :: "fields \<Rightarrow> string list \<Rightarrow> jsobject \<Rightarrow> bool" where
  "null_links fds links r =
     (\<forall>field\<in>set links. \<forall>fd.
        map_of fds field = Some fd \<and> \<not> no_inverse (fd_inverse fd) \<and> has_field field r \<longrightarrow>
        (\<forall>i\<in>set (linked_ids (get_field r field)). i = JNull))"

section \<open>Back-references in an operation\<close>



text \<open>\<^verbatim>\<open>recordTypes[linkedType][inverseField][isArrayKey]\<close>, where it can be read.\<close>

definition linkedIsArray :: "env \<Rightarrow> string \<Rightarrow> string \<Rightarrow> bool option" where
  "linkedIsArray env linkedType inverseField =
     (case map_of (recordTypes env) linkedType of
        None \<Rightarrow> None
      | Some linkedFields \<Rightarrow>
          (case map_of linkedFields inverseField of
             None \<Rightarrow> None
           | Some ifd \<Rightarrow> fd_isArray ifd))"



section \<open>Example instances\<close>

text \<open>
  The schema of the scenario in the specification, with one denormalized inverse field
  added: a person has pets, an animal has one owner; an animal likes persons, and
  \<open>admirers\<close> is the denormalized inverse of that on the person.
\<close>

definition ex_person :: fields where
  "ex_person =
     [(''name'', \<lparr>fd_link = None, fd_inverse = None, fd_isArray = None,
                   fd_denormalizedInverse = None\<rparr>),
      (''pets'', \<lparr>fd_link = Some ''animal'', fd_inverse = Some ''owner'',
                   fd_isArray = Some True, fd_denormalizedInverse = None\<rparr>),
      (''admirers'', \<lparr>fd_link = Some ''animal'', fd_inverse = Some ''likes'',
                       fd_isArray = Some True, fd_denormalizedInverse = Some True\<rparr>)]"

definition ex_animal :: fields where
  "ex_animal =
     [(''owner'', \<lparr>fd_link = Some ''person'', fd_inverse = Some ''pets'',
                    fd_isArray = Some False, fd_denormalizedInverse = None\<rparr>),
      (''likes'', \<lparr>fd_link = Some ''person'', fd_inverse = Some ''admirers'',
                    fd_isArray = Some True, fd_denormalizedInverse = None\<rparr>)]"

definition ex_recordTypes :: "(string \<times> fields) list" where
  "ex_recordTypes = [(''person'', ex_person), (''animal'', ex_animal)]"

text \<open>A backend that numbers the records it creates, and one that returns nothing.\<close>

definition ex_txn :: txn where
  "ex_txn =
     \<lparr>tx_create = (\<lambda>ty vs. Resolved (map (\<lambda>iv. (''id'', JNum (int (fst iv))) # snd iv)
                                          (enumerate 1 vs))),
      tx_update = (\<lambda>ty ops. Resolved ()),
      tx_endTransaction = (\<lambda>x. Resolved ())\<rparr>"

definition ex_txn_empty :: txn where
  "ex_txn_empty = ex_txn\<lparr>tx_create := (\<lambda>ty vs. Resolved [])\<rparr>"

text \<open>A backend whose abort fails with an error of its own.\<close>

definition ex_txn_bad_abort :: txn where
  "ex_txn_bad_abort =
     ex_txn\<lparr>tx_endTransaction :=
               (\<lambda>x. case x of None \<Rightarrow> Resolved () | Some e \<Rightarrow> Rejected (External 99))\<rparr>"

text \<open>An instance without transforms whose enforcement accepts every record.\<close>

definition ex_env :: env where
  "ex_env =
     \<lparr>recordTypes = ex_recordTypes,
      transforms = [(''person'', None), (''animal'', None)],
      enforce = (\<lambda>h a. (h, None)),
      checkLinks = (\<lambda>v. Resolved ()),
      validateRecords = (\<lambda>vs. None),
      beginTransaction = Resolved ex_txn\<rparr>"

text \<open>An instance whose input transform for persons stamps the record it is given.\<close>

definition ex_env_stamp :: env where
  "ex_env_stamp =
     ex_env\<lparr>transforms :=
              [(''person'',
                Some (\<lambda>h a. (h(a := AList.update ''stamp'' (JNum 1) (h a)), Inr (Resolved a)))),
               (''animal'', None)]\<rparr>"

text \<open>An instance whose enforcement asks for a name, on the backend with the failing abort.\<close>

definition ex_env_strict :: env where
  "ex_env_strict =
     ex_env\<lparr>enforce := (\<lambda>h a. (h, if has_field ''name'' (h a) then None else Some (External 1))),
            beginTransaction := Resolved ex_txn_bad_abort\<rparr>"

definition ex_env_empty :: env where
  "ex_env_empty = ex_env\<lparr>beginTransaction := Resolved ex_txn_empty\<rparr>"

text \<open>
  Three person records in the store: the second one has no name, the third one has no pet.
\<close>

definition ex_heap :: heap where
  "ex_heap =
     (\<lambda>a. [])
       (0 := [(''name'', JStr ''Ann''), (''pets'', JArr [JStr ''A1'']),
              (''admirers'', JArr [JStr ''A9''])],
        1 := [(''pets'', JArr [JStr ''A1'', JNull]), (''admirers'', JNull)],
        2 := [(''name'', JStr ''Bob''), (''pets'', JNull)])"

text \<open>
  Created records as a backend returns them: two persons who both list the animal
  \<open>A1\<close> as a pet, two animals owned by the person \<open>P1\<close>, and a person without
  pets.
\<close>

definition ex_created_persons :: "jsobject list" where
  "ex_created_persons =
     [[(''id'', JNum 1), (''name'', JStr ''Ann''), (''pets'', JArr [JStr ''A1''])],
      [(''id'', JNum 2), (''name'', JStr ''Ben''), (''pets'', JArr [JStr ''A1''])]]"

definition ex_created_animals :: "jsobject list" where
  "ex_created_animals =
     [[(''id'', JStr ''A1''), (''owner'', JStr ''P1'')],
      [(''id'', JStr ''A2''), (''owner'', JStr ''P1'')]]"

definition ex_created_loner :: jsobject where
  "ex_created_loner = [(''id'', JNum 3), (''name'', JStr ''Bob''), (''pets'', JNull)]"

definition ex_req :: request where
  "ex_req = \<lparr>req_type = ''person'', payload = Some [0, 1], req_meta = \<lparr>language = Some ''en''\<rparr>\<rparr>"

definition ex_req_one :: request where
  "ex_req_one = \<lparr>req_type = ''person'', payload = Some [0], req_meta = \<lparr>language = Some ''en''\<rparr>\<rparr>"

definition ex_req_null :: request where
  "ex_req_null = \<lparr>req_type = ''person'', payload = Some [2], req_meta = \<lparr>language = Some ''en''\<rparr>\<rparr>"

definition ex_req_none :: request where
  "ex_req_none = \<lparr>req_type = ''person'', payload = None, req_meta = \<lparr>language = Some ''en''\<rparr>\<rparr>"

section \<open>The shape of the log\<close>

lemma promise_all_Inr:
  "promise_all ps = Inr vs \<Longrightarrow> ps = map Resolved vs"
  by (induction ps arbitrary: vs rule: promise_all.induct) (auto split: sum.splits)

lemma promise_all_Inl:
  "promise_all ps = Inl e \<Longrightarrow> Rejected e \<in> set ps"
  by (induction ps rule: promise_all.induct) (auto split: sum.splits)

lemma transform_call_trace:
  "transform_call f a s = (s', r) \<Longrightarrow>
     \<exists>v out. trace s' = trace s @ [Transform v out] \<and> response_records s' = response_records s \<and>
       (case r of Inl e \<Rightarrow> out = Inl e | Inr p \<Rightarrow> out = Inr p)"
  by (auto simp: transform_call_def log_def split: prod.splits sum.splits)

lemma map_transform_trace:
  "map_calls (transform_call f) xs s = (s', r) \<Longrightarrow>
     \<exists>evs. trace s' = trace s @ evs \<and> response_records s' = response_records s \<and>
       (\<forall>ev\<in>set evs. kind ev = KTransform) \<and>
       (case r of
          Inl e \<Rightarrow> \<exists>ev\<in>set evs. step_error ev = Some e
        | Inr ps \<Rightarrow> length ps = length xs \<and> (\<forall>ev\<in>set evs. \<forall>e. step_error ev = Some e \<longrightarrow> Rejected e \<in> set ps)
             \<and> (\<forall>e. Rejected e \<in> set ps \<longrightarrow> (\<exists>ev\<in>set evs. step_error ev = Some e)))"
proof (induction xs arbitrary: s s' r)
  case Nil
  then show ?case by auto
next
  case (Cons x xs)
  obtain s1 r1 where c: "transform_call f x s = (s1, r1)" by (cases "transform_call f x s")
  from transform_call_trace[OF c] obtain v out where
    t1: "trace s1 = trace s @ [Transform v out]" "response_records s1 = response_records s"
    and o: "(case r1 of Inl e \<Rightarrow> out = Inl e | Inr p \<Rightarrow> out = Inr p)" by blast
  show ?case
  proof (cases r1)
    case (Inl e)
    with Cons.prems c have "s' = s1" "r = Inl e" by auto
    with t1 o Inl show ?thesis by auto
  next
    case (Inr p)
    obtain s2 r2 where m: "map_calls (transform_call f) xs s1 = (s2, r2)"
      by (cases "map_calls (transform_call f) xs s1")
    from Cons.IH[OF m] obtain evs where
      t2: "trace s2 = trace s1 @ evs" "response_records s2 = response_records s1"
      "\<forall>ev\<in>set evs. kind ev = KTransform"
      and r2: "(case r2 of
          Inl e \<Rightarrow> \<exists>ev\<in>set evs. step_error ev = Some e
        | Inr ps \<Rightarrow> length ps = length xs \<and> (\<forall>ev\<in>set evs. \<forall>e. step_error ev = Some e \<longrightarrow> Rejected e \<in> set ps)
             \<and> (\<forall>e. Rejected e \<in> set ps \<longrightarrow> (\<exists>ev\<in>set evs. step_error ev = Some e)))" by blast
    from Cons.prems c m Inr have s': "s' = s2" and r: "r = (case r2 of Inl e \<Rightarrow> Inl e | Inr ys \<Rightarrow> Inr (p # ys))"
      by (auto split: sum.splits)
    have tr: "trace s' = trace s @ (Transform v out # evs)" using t1 t2 s' by simp
    show ?thesis
      apply (rule exI[of _ "Transform v out # evs"])
      using tr t1 t2 s' r r2 o Inr
      by (cases p; cases r2) (auto)
  qed
qed


lemma handler_transform_run:
  assumes "handler_transform tf recs s = (s', r)"
  shows "\<exists>T. trace s' = trace s @ T \<and> response_records s' = response_records s \<and>
       (\<forall>ev\<in>set T. kind ev = KTransform) \<and>
       (case r of
          Inl e \<Rightarrow> (e = TypeError \<and> T = []) \<or> (\<exists>ev\<in>set T. step_error ev = Some e)
        | Inr rs \<Rightarrow> (\<forall>ev\<in>set T. step_error ev = None) \<and> length rs = length recs)"
proof (cases tf)
  case None
  with assms show ?thesis by (auto simp: handler_transform_def)
next
  case (Some o1)
  show ?thesis
  proof (cases o1)
    case None
    with Some assms show ?thesis by (auto simp: handler_transform_def)
  next
    case (Some f)
    obtain s1 r1 where m: "map_calls (transform_call f) recs s = (s1, r1)"
      by (cases "map_calls (transform_call f) recs s")
    from map_transform_trace[OF m] obtain evs where
      t: "trace s1 = trace s @ evs" "response_records s1 = response_records s"
         "\<forall>ev\<in>set evs. kind ev = KTransform"
      and r1: "(case r1 of
          Inl e \<Rightarrow> \<exists>ev\<in>set evs. step_error ev = Some e
        | Inr ps \<Rightarrow> length ps = length recs \<and> (\<forall>ev\<in>set evs. \<forall>e. step_error ev = Some e \<longrightarrow> Rejected e \<in> set ps)
             \<and> (\<forall>e. Rejected e \<in> set ps \<longrightarrow> (\<exists>ev\<in>set evs. step_error ev = Some e)))" by blast
    from assms \<open>tf = Some o1\<close> Some m have s': "s' = s1"
      and r: "r = (case r1 of Inl e \<Rightarrow> Inl e | Inr ps \<Rightarrow> promise_all ps)"
      by (auto simp: handler_transform_def split: sum.splits)
    show ?thesis
    proof (cases r1)
      case (Inl e)
      with r r1 t s' show ?thesis by auto
    next
      case (Inr ps)
      show ?thesis
      proof (cases "promise_all ps")
        case (Inl e)
        from promise_all_Inl[OF Inl] r1 Inr have "\<exists>ev\<in>set evs. step_error ev = Some e" by auto
        with r Inr Inl t s' show ?thesis by auto
      next
        case (Inr vs)
        from promise_all_Inr[OF Inr] have ps: "ps = map Resolved vs" .
        with r1 \<open>r1 = Inr ps\<close> have "\<forall>ev\<in>set evs. step_error ev = None" "length vs = length recs"
          by (auto simp: image_iff)
        with r \<open>r1 = Inr ps\<close> Inr t s' show ?thesis by auto
      qed
    qed
  qed
qed

lemma enforce_call_run:
  "enforce_call env a s = (s', r) \<Longrightarrow>
     response_records s' = response_records s \<and>
     (case r of
        Inl e \<Rightarrow> \<exists>v. trace s' = trace s @ [Enforce v (Some e)]
      | Inr p \<Rightarrow> \<exists>v w c. trace s' = trace s @ [Enforce v None, CheckLinks w c] \<and>
                 p = (case c of Rejected e \<Rightarrow> Rejected e | Resolved u \<Rightarrow> Resolved a))"
  by (auto simp: enforce_call_def log_def split: prod.splits option.splits)

lemma map_enforce_run:
  "map_calls (enforce_call env) xs s = (s', r) \<Longrightarrow>
     \<exists>evs. trace s' = trace s @ evs \<and> response_records s' = response_records s \<and>
       (\<forall>ev\<in>set evs. kind ev = KEnforce \<or> kind ev = KCheckLinks) \<and>
       (case r of
          Inl e \<Rightarrow> \<exists>ev\<in>set evs. step_error ev = Some e
        | Inr ps \<Rightarrow> length (filter (\<lambda>ev. kind ev = KEnforce) evs) = length xs \<and>
             (\<forall>ev\<in>set evs. \<forall>e. step_error ev = Some e \<longrightarrow> Rejected e \<in> set ps) \<and>
             (\<forall>e. Rejected e \<in> set ps \<longrightarrow> (\<exists>ev\<in>set evs. step_error ev = Some e)) \<and>
             (\<forall>vs. ps = map Resolved vs \<longrightarrow> vs = xs))"
proof (induction xs arbitrary: s s' r)
  case Nil
  then show ?case by auto
next
  case (Cons x xs)
  obtain s1 r1 where c: "enforce_call env x s = (s1, r1)" by (cases "enforce_call env x s")
  note c1 = enforce_call_run[OF c]
  show ?case
  proof (cases r1)
    case (Inl e)
    with Cons.prems c have "s' = s1" "r = Inl e" by auto
    with c1 Inl show ?thesis by auto
  next
    case (Inr p)
    from c1 Inr obtain v w c where
      t1: "trace s1 = trace s @ [Enforce v None, CheckLinks w c]"
          "response_records s1 = response_records s"
      and p: "p = (case c of Rejected e \<Rightarrow> Rejected e | Resolved u \<Rightarrow> Resolved x)" by auto
    obtain s2 r2 where m: "map_calls (enforce_call env) xs s1 = (s2, r2)"
      by (cases "map_calls (enforce_call env) xs s1")
    from Cons.IH[OF m] obtain evs where
      t2: "trace s2 = trace s1 @ evs" "response_records s2 = response_records s1"
      "\<forall>ev\<in>set evs. kind ev = KEnforce \<or> kind ev = KCheckLinks"
      and r2: "(case r2 of
          Inl e \<Rightarrow> \<exists>ev\<in>set evs. step_error ev = Some e
        | Inr ps \<Rightarrow> length (filter (\<lambda>ev. kind ev = KEnforce) evs) = length xs \<and>
             (\<forall>ev\<in>set evs. \<forall>e. step_error ev = Some e \<longrightarrow> Rejected e \<in> set ps) \<and>
             (\<forall>e. Rejected e \<in> set ps \<longrightarrow> (\<exists>ev\<in>set evs. step_error ev = Some e)) \<and>
             (\<forall>vs. ps = map Resolved vs \<longrightarrow> vs = xs))" by blast
    from Cons.prems c m Inr have s': "s' = s2" and r: "r = (case r2 of Inl e \<Rightarrow> Inl e | Inr ys \<Rightarrow> Inr (p # ys))"
      by (auto split: sum.splits)
    have tr: "trace s' = trace s @ (Enforce v None # CheckLinks w c # evs)" using t1 t2 s' by simp
    show ?thesis
      apply (rule exI[of _ "Enforce v None # CheckLinks w c # evs"])
      using tr t1 t2 s' r r2 p
      by (cases c; cases r2) (auto simp: map_eq_Cons_conv)
  qed
qed

lemma handler_enforce_run:
  assumes "handler_enforce env recs s = (s', r)"
  shows "\<exists>E. trace s' = trace s @ E \<and> response_records s' = response_records s \<and>
       (\<forall>ev\<in>set E. kind ev = KEnforce \<or> kind ev = KCheckLinks) \<and>
       (case r of
          Inl e \<Rightarrow> \<exists>ev\<in>set E. step_error ev = Some e
        | Inr rs \<Rightarrow> rs = recs \<and> (\<forall>ev\<in>set E. step_error ev = None) \<and>
                   length (filter (\<lambda>ev. kind ev = KEnforce) E) = length recs)"
proof -
  obtain s1 r1 where m: "map_calls (enforce_call env) recs s = (s1, r1)"
    by (cases "map_calls (enforce_call env) recs s")
  from map_enforce_run[OF m] obtain evs where
    t: "trace s1 = trace s @ evs" "response_records s1 = response_records s"
       "\<forall>ev\<in>set evs. kind ev = KEnforce \<or> kind ev = KCheckLinks"
    and r1: "(case r1 of
          Inl e \<Rightarrow> \<exists>ev\<in>set evs. step_error ev = Some e
        | Inr ps \<Rightarrow> length (filter (\<lambda>ev. kind ev = KEnforce) evs) = length recs \<and>
             (\<forall>ev\<in>set evs. \<forall>e. step_error ev = Some e \<longrightarrow> Rejected e \<in> set ps) \<and>
             (\<forall>e. Rejected e \<in> set ps \<longrightarrow> (\<exists>ev\<in>set evs. step_error ev = Some e)) \<and>
             (\<forall>vs. ps = map Resolved vs \<longrightarrow> vs = recs))" by blast
  from assms m have s': "s' = s1"
    and r: "r = (case r1 of Inl e \<Rightarrow> Inl e | Inr ps \<Rightarrow> promise_all ps)"
    by (auto simp: handler_enforce_def split: sum.splits)
  show ?thesis
  proof (cases r1)
    case (Inl e)
    with r r1 t s' show ?thesis by auto
  next
    case (Inr ps)
    show ?thesis
    proof (cases "promise_all ps")
      case (Inl e)
      from promise_all_Inl[OF Inl] r1 Inr have "\<exists>ev\<in>set evs. step_error ev = Some e" by auto
      with r Inr Inl t s' show ?thesis by auto
    next
      case (Inr vs)
      from promise_all_Inr[OF Inr] have ps: "ps = map Resolved vs" .
      with r1 \<open>r1 = Inr ps\<close> have "\<forall>ev\<in>set evs. step_error ev = None" "vs = recs"
        "length (filter (\<lambda>ev. kind ev = KEnforce) evs) = length recs"
        by (auto simp: image_iff)
      with r \<open>r1 = Inr ps\<close> Inr t s' show ?thesis by auto
    qed
  qed
qed


lemma handler_create_run:
  assumes "handler_create env t ty recs s = (s', r)" and "vs = map (heap s) recs"
  shows "response_records s' = response_records s \<and> heap s' = heap s \<and>
      ((\<exists>e. trace s' = trace s @ [ValidateRecords vs (Some e)] \<and> r = Inl e) \<or>
       (\<exists>e. trace s' = trace s @ [ValidateRecords vs None, TxCreate ty vs (Rejected e)] \<and> r = Inl e) \<or>
       (\<exists>created. trace s' = trace s @ [ValidateRecords vs None, TxCreate ty vs (Resolved created)]
           \<and> r = Inr created))"
  using assms
  by (auto simp: handler_create_def log_def Let_def split: option.splits promise.splits)

lemma update_calls_run:
  "update_calls t ups tys s = (s', ps) \<Longrightarrow>
     trace s' = trace s @ update_events t ups tys \<and>
     response_records s' = response_records s \<and> heap s' = heap s \<and>
     (\<forall>e. Rejected e \<in> set ps \<longrightarrow> (\<exists>ev\<in>set (update_events t ups tys). step_error ev = Some e)) \<and>
     (\<forall>ev\<in>set (update_events t ups tys). \<forall>e. step_error ev = Some e \<longrightarrow> Rejected e \<in> set ps)"
proof (induction tys arbitrary: s s' ps)
  case Nil
  then show ?case by (simp add: update_events_def)
next
  case (Cons ty tys)
  show ?case
  proof (cases "pending ups ty = []")
    case True
    obtain s2 ps2 where u: "update_calls t ups tys s = (s2, ps2)"
      by (cases "update_calls t ups tys s")
    with Cons.prems True have "s' = s2" "ps = Resolved () # ps2" by auto
    with Cons.IH[OF u] True show ?thesis by (auto simp: update_events_def)
  next
    case False
    let ?ev = "TxUpdate ty (pending ups ty) (tx_update t ty (pending ups ty))"
    obtain s2 ps2 where u: "update_calls t ups tys (log ?ev s) = (s2, ps2)"
      by (cases "update_calls t ups tys (log ?ev s)")
    with Cons.prems False have "s' = s2" "ps = tx_update t ty (pending ups ty) # ps2" by auto
    with Cons.IH[OF u] False show ?thesis
      by (cases "tx_update t ty (pending ups ty)") (auto simp: update_events_def log_def)
  qed
qed

lemma link_step_error:
  "link_step env fds r field uc = Inl e \<Longrightarrow> e = TypeError"
  by (auto simp: link_step_def split: option.splits if_splits)

lemma link_loop_error:
  "link_loop env fds r fs uc = Inl e \<Longrightarrow> e = TypeError"
  by (induction fs arbitrary: uc) (auto split: sum.splits dest: link_step_error)

lemma record_loop_error:
  "record_loop env fds links m rs uc = Inl e \<Longrightarrow>
     e = Error CreateRecordMissingID (language m) \<or> e = TypeError"
  by (induction rs arbitrary: uc) (auto split: sum.splits if_splits dest: link_loop_error)

lemma handler_created_run:
  assumes "handler_created env t fds links m created s = (s', r)"
  shows "(created = [] \<and> trace s' = trace s \<and> r = Inl (BadRequestError CreateRecordsFail (language m))) \<or>
     (created \<noteq> [] \<and> trace s' = trace s \<and>
        (r = Inl (Error CreateRecordMissingID (language m)) \<or> r = Inl TypeError)) \<or>
     (created \<noteq> [] \<and> (\<exists>ups.
        trace s' = trace s @ update_events t ups (map fst ups) \<and>
        ((\<exists>e. r = Inl e \<and> (\<exists>ev\<in>set (update_events t ups (map fst ups)). step_error ev = Some e)) \<or>
         (r = Inr ups \<and> (\<forall>ev\<in>set (update_events t ups (map fst ups)). step_error ev = None)))))"
proof (cases "created = []")
  case True
  with assms show ?thesis by (auto simp: handler_created_def)
next
  case False
  show ?thesis
  proof (cases "record_loop env fds links m (rev created) ([], [])")
    case (Inl e)
    from record_loop_error[OF Inl] Inl assms False show ?thesis
      by (auto simp: handler_created_def)
  next
    case (Inr uc)
    let ?s1 = "s\<lparr>response_records := Some created\<rparr>"
    obtain s2 ps where u: "update_calls t (fst uc) (map fst (fst uc)) ?s1 = (s2, ps)"
      by (cases "update_calls t (fst uc) (map fst (fst uc)) ?s1")
    note ur = update_calls_run[OF u]
    from assms False Inr u have s': "s' = s2"
      and r: "r = (case promise_all ps of Inl e \<Rightarrow> Inl e | Inr us \<Rightarrow> Inr (fst uc))"
      by (auto simp: handler_created_def Let_def)
    have rl: "record_loop env fds links m (rev created) ([], []) = Inr (fst uc, snd (projr (record_loop env fds links m (rev created) ([], []))))"
      using Inr by simp
    show ?thesis
    proof (cases "promise_all ps")
      case (Inl e)
      from promise_all_Inl[OF Inl] ur
      have "\<exists>ev\<in>set (update_events t (fst uc) (map fst (fst uc))). step_error ev = Some e" by blast
      with r Inl s' ur False rl show ?thesis by auto
    next
      case (Inr vs)
      from promise_all_Inr[OF Inr] ur
      have "\<forall>ev\<in>set (update_events t (fst uc) (map fst (fst uc))). step_error ev = None"
        by (auto simp: image_iff)
      with r Inr s' ur False rl show ?thesis by auto
    qed
  qed
qed


lemma pipeline_run:
  assumes "pipeline env t req fds links tf recs s = (s', r)"
  shows "\<exists>evs. trace s' = trace s @ evs \<and> body t req evs r"
proof -
  obtain s1 r1 where h1: "handler_transform tf recs s = (s1, r1)"
    by (cases "handler_transform tf recs s")
  from handler_transform_run[OF h1] obtain T where
    T: "trace s1 = trace s @ T" "\<forall>ev\<in>set T. kind ev = KTransform"
    and r1: "(case r1 of
          Inl e \<Rightarrow> (e = TypeError \<and> T = []) \<or> (\<exists>ev\<in>set T. step_error ev = Some e)
        | Inr rs \<Rightarrow> (\<forall>ev\<in>set T. step_error ev = None) \<and> length rs = length recs)" by blast
  show ?thesis
  proof (cases r1)
    case (Inl e)
    with assms h1 have "s' = s1" "r = Inl e" by (auto simp: pipeline_def)
    with T r1 Inl show ?thesis by (auto intro!: body.transform_failed)
  next
    case (Inr results)
    with r1 T have Tc: "\<forall>ev\<in>set T. kind ev = KTransform \<and> step_error ev = None" by auto
    obtain s2 r2 where h2: "handler_enforce env results s1 = (s2, r2)"
      by (cases "handler_enforce env results s1")
    from handler_enforce_run[OF h2] obtain E where
      E: "trace s2 = trace s1 @ E" "\<forall>ev\<in>set E. kind ev = KEnforce \<or> kind ev = KCheckLinks"
      and r2: "(case r2 of
          Inl e \<Rightarrow> \<exists>ev\<in>set E. step_error ev = Some e
        | Inr rs \<Rightarrow> rs = results \<and> (\<forall>ev\<in>set E. step_error ev = None) \<and>
                   length (filter (\<lambda>ev. kind ev = KEnforce) E) = length results)" by blast
    show ?thesis
    proof (cases r2)
      case (Inl e)
      with assms h1 h2 \<open>r1 = Inr results\<close> have "s' = s2" "r = Inl e" by (auto simp: pipeline_def)
      moreover have "body t req (T @ E) (Inl e)"
        using Tc E r2 Inl by (auto intro!: body.enforce_failed)
      ultimately show ?thesis using T E by auto
    next
      case (Inr enforced)
      define vs where "vs = map (heap s2) enforced"
      from r2 Inr E have pw: "pre_write T E (length vs)"
        using Tc by (auto simp: pre_write_def vs_def)
      obtain s3 r3 where h3: "handler_create env t (req_type req) enforced s2 = (s3, r3)"
        by (cases "handler_create env t (req_type req) enforced s2")
      note c3 = handler_create_run[OF h3 vs_def]
      have t2: "trace s2 = trace s @ T @ E" using T E by simp
      show ?thesis
      proof (cases r3)
        case (Inl e)
        with assms h1 h2 h3 \<open>r1 = Inr results\<close> \<open>r2 = Inr enforced\<close>
        have "s' = s3" "r = Inl e" by (auto simp: pipeline_def)
        with c3 Inl t2 pw show ?thesis
          by (auto intro: body.validate_failed body.create_rejected)
      next
        case (Inr created)
        with c3 have t3: "trace s3 = trace s @ T @ E @ [ValidateRecords vs None, TxCreate (req_type req) vs (Resolved created)]"
          using t2 by auto
        obtain s4 r4 where h4: "handler_created env t fds links (req_meta req) created s3 = (s4, r4)"
          by (cases "handler_created env t fds links (req_meta req) created s3")
        note c4 = handler_created_run[OF h4]
        show ?thesis
        proof (cases r4)
          case (Inl e)
          with assms h1 h2 h3 h4 \<open>r1 = Inr results\<close> \<open>r2 = Inr enforced\<close> \<open>r3 = Inr created\<close>
          have "s' = s4" "r = Inl e" by (auto simp: pipeline_def)
          with c4 Inl t3 pw show ?thesis
            using body.created_empty[of T E vs t req] body.scan_failed[of T E vs created _ req t]
              body.update_rejected[of T E vs created t _ e req]
            by auto
        next
          case (Inr ups)
          with c4 have ne: "created \<noteq> []"
            and t4: "trace s4 = trace s3 @ update_events t ups (map fst ups)"
            and cl: "\<forall>ev\<in>set (update_events t ups (map fst ups)). step_error ev = None"
            by auto
          obtain s5 r5 where h5: "handler_commit t s4 = (s5, r5)"
            by (cases "handler_commit t s4")
          from h5 have t5: "trace s5 = trace s4 @ [EndTransaction None (tx_endTransaction t None)]"
            and r5: "r5 = (case tx_endTransaction t None of Rejected e \<Rightarrow> Inl e | Resolved u \<Rightarrow> Inr ())"
            by (auto simp: handler_commit_def log_def)
          from assms h1 h2 h3 h4 h5 \<open>r1 = Inr results\<close> \<open>r2 = Inr enforced\<close> \<open>r3 = Inr created\<close> Inr
          have s': "s' = s5" and r: "r = (case r5 of Inl e \<Rightarrow> Inl e | Inr u \<Rightarrow> Inr (created, ups))"
            by (auto simp: pipeline_def split: sum.splits)
          show ?thesis
          proof (cases "tx_endTransaction t None")
            case (Rejected e)
            with r r5 have "r = Inl e" by simp
            moreover have "trace s' = trace s @ (T @ E @ [ValidateRecords vs None, TxCreate (req_type req) vs (Resolved created)]
                  @ update_events t ups (map fst ups) @ [EndTransaction None (Rejected e)])"
              using s' t5 t4 t3 Rejected by simp
            moreover note body.commit_rejected[OF pw ne cl, where e = e]
            ultimately show ?thesis by blast
          next
            case (Resolved u)
            with r r5 have "r = Inr (created, ups)" by simp
            moreover have "trace s' = trace s @ (T @ E @ [ValidateRecords vs None, TxCreate (req_type req) vs (Resolved created)]
                  @ update_events t ups (map fst ups) @ [EndTransaction None (Resolved ())])"
              using s' t5 t4 t3 Resolved by simp
            moreover note body.committed[OF pw ne cl]
            ultimately show ?thesis by blast
          qed
        qed
      qed
    qed
  qed
qed

lemma handler_payload_trace:
  "handler_payload env req s = (s', r) \<Longrightarrow> trace s' = trace s"
  by (auto simp: handler_payload_def Let_def split: option.splits if_splits)

lemma create_run:
  assumes "create env req h = (s, r)"
  shows "run env req (trace s) r"
proof -
  let ?s0 = "\<lparr>heap = h, trace = [], response_records = None\<rparr>"
  obtain s1 r1 where h1: "handler_payload env req ?s0 = (s1, r1)"
    by (cases "handler_payload env req ?s0")
  from handler_payload_trace[OF h1] have t1: "trace s1 = []" by simp
  show ?thesis
  proof (cases r1)
    case (Inl e)
    with h1 have "e = BadRequestError CreateRecordsInvalid None"
      by (auto simp: handler_payload_def Let_def split: option.splits if_splits)
    with assms h1 Inl t1 show ?thesis
      by (auto simp: create_def catch_handler_def intro: run.bad_payload)
  next
    case (Inr x)
    obtain recs fds links tf where x: "x = (recs, fds, links, tf)" by (cases x)
    obtain s2 r2 where h2: "handler_begin env recs s1 = (s2, r2)"
      by (cases "handler_begin env recs s1")
    show ?thesis
    proof (cases r2)
      case (Inl e)
      with h2 t1 have "trace s2 = [BeginTransaction (map (heap s1) recs) (Some e)]"
        by (auto simp: handler_begin_def log_def split: promise.splits)
      with assms h1 h2 Inr x Inl show ?thesis
        by (auto simp: create_def catch_handler_def intro: run.begin_rejected)
    next
      case (Inr t)
      with h2 t1 have t2: "trace s2 = [BeginTransaction (map (heap s1) recs) None]"
        and bt: "beginTransaction env = Resolved t"
        by (auto simp: handler_begin_def log_def split: promise.splits)
      obtain s3 r3 where h3: "pipeline env t req fds links tf recs s2 = (s3, r3)"
        by (cases "pipeline env t req fds links tf recs s2")
      from pipeline_run[OF h3] t2 obtain evs where
        t3: "trace s3 = BeginTransaction (map (heap s1) recs) None # evs" and b: "body t req evs r3"
        by auto
      show ?thesis
      proof (cases r3)
        case (Inl e)
        with assms h1 h2 h3 \<open>r1 = Inr x\<close> x \<open>r2 = Inr t\<close>
        have "r = Inl e" "trace s = trace s3 @ [EndTransaction (Some e) (tx_endTransaction t (Some e))]"
          by (auto simp: create_def catch_handler_def log_def)
        with t3 b Inl bt show ?thesis by (auto intro: run.aborted)
      next
        case (Inr y)
        obtain created ups where y: "y = (created, ups)" by (cases y)
        with assms h1 h2 h3 \<open>r1 = Inr x\<close> x \<open>r2 = Inr t\<close> Inr
        have "r = Inr ()" "trace s = trace s3 @ [Emit (event_loop (map fst ups) ups
                   \<lparr>ev_create = [(req_type req, created)], ev_update = None\<rparr>)]"
          by (auto simp: create_def handler_emit_def log_def)
        with t3 b Inr y bt show ?thesis by (auto intro: run.emitted)
      qed
    qed
  qed
qed

lemma is_abort_kind: "is_abort ev \<Longrightarrow> kind ev = KEnd"
  by (cases ev rule: is_abort.cases) auto

lemma is_opening_kind: "is_opening ev \<Longrightarrow> kind ev = KBegin"
  by (cases ev rule: is_opening.cases) auto

lemma update_events_mem:
  "ev \<in> set (update_events t ups tys) \<longleftrightarrow>
     (\<exists>ty\<in>set tys. pending ups ty \<noteq> [] \<and>
        ev = TxUpdate ty (pending ups ty) (tx_update t ty (pending ups ty)))"
  by (auto simp: update_events_def)

lemma update_events_kind: "ev \<in> set (update_events t ups tys) \<Longrightarrow> kind ev = KUpdate"
  by (auto simp: update_events_mem)

lemma pre_write_kinds:
  "pre_write T E n \<Longrightarrow> ev \<in> set T \<union> set E \<Longrightarrow>
     (kind ev = KTransform \<or> kind ev = KEnforce \<or> kind ev = KCheckLinks) \<and> step_error ev = None"
  by (auto simp: pre_write_def)

text \<open>Every entry of the body is one of the calls between opening and closing.\<close>

lemma body_kinds:
  assumes "body t req evs r" and "ev \<in> set evs"
  shows "kind ev \<noteq> KBegin \<and> kind ev \<noteq> KEmit \<and> \<not> is_abort ev \<and> \<not> is_opening ev"
proof -
  have "kind ev \<noteq> KBegin \<and> kind ev \<noteq> KEmit \<and> (kind ev = KEnd \<longrightarrow> ev = EndTransaction None (Rejected (projl r)) \<or> ev = EndTransaction None (Resolved ()))"
    using assms
    by (induction rule: body.induct)
       (auto dest: pre_write_kinds update_events_kind)
  then show ?thesis
    by (auto dest: is_abort_kind is_opening_kind)
qed




text \<open>Whatever the shape, an opened transaction is closed by the last entry or the one before.\<close>

lemma run_opened:
  "run env req tr r \<Longrightarrow> opened tr \<longleftrightarrow> (\<exists>snap evs. tr = BeginTransaction snap None # evs)"
  by (induction rule: run.induct)
     (auto simp: opened_def list_ex_iff dest: body_kinds)

lemma pre_write_before:
  assumes "pre_write T E n" and "ev \<in> set (T @ E @ [ValidateRecords vs None])"
  shows "kind ev \<noteq> KCreate \<and> kind ev \<noteq> KUpdate \<and> kind ev \<noteq> KEnd \<and> kind ev \<noteq> KEmit \<and>
         step_error ev = None"
  using assms by (auto simp: pre_write_def)

lemma pre_write_count:
  assumes "pre_write T E n"
  shows "length (filter (\<lambda>ev. kind ev = KEnforce) (T @ E @ [ValidateRecords vs None])) = n"
proof -
  have "filter (\<lambda>ev. kind ev = KEnforce) T = []"
    using assms by (auto simp: pre_write_def filter_empty_conv)
  then show ?thesis using assms by (simp add: pre_write_def)
qed

lemma split_at_create:
  assumes "pre_write T E (length vs)"
    and "\<forall>ev\<in>set post. kind ev = KUpdate \<or> kind ev = KEnd"
    and "p = Resolved [] \<longrightarrow> post = [] \<and> r = Inl (BadRequestError CreateRecordsFail lang)"
  shows "\<exists>pre vs' p' post'.
        T @ E @ [ValidateRecords vs None, TxCreate ty vs p] @ post = pre @ TxCreate ty vs' p' # post' \<and>
        (\<forall>ev\<in>set pre. kind ev \<noteq> KCreate \<and> kind ev \<noteq> KUpdate \<and> kind ev \<noteq> KEnd \<and>
                      kind ev \<noteq> KEmit \<and> step_error ev = None) \<and>
        length (filter (\<lambda>ev. kind ev = KEnforce) pre) = length vs' \<and>
        (\<forall>ev\<in>set post'. kind ev = KUpdate \<or> kind ev = KEnd) \<and>
        (p' = Resolved [] \<longrightarrow> post' = [] \<and> r = Inl (BadRequestError CreateRecordsFail lang))"
proof -
  have "T @ E @ [ValidateRecords vs None, TxCreate ty vs p] @ post =
        (T @ E @ [ValidateRecords vs None]) @ TxCreate ty vs p # post" by simp
  with pre_write_before[OF assms(1)] pre_write_count[OF assms(1)] assms(2,3)
  show ?thesis by blast
qed

text \<open>
  The body either never reaches the backend create, or is split by the one create call:
  before it the successful transforms, enforcements, link checks and validation, after
  it update calls and the commit.
\<close>

lemma body_write:
  assumes "body t req evs r"
  shows "(\<forall>ev\<in>set evs. kind ev \<noteq> KCreate \<and> kind ev \<noteq> KUpdate \<and> kind ev \<noteq> KEnd) \<or>
     (\<exists>pre vs p post. evs = pre @ TxCreate (req_type req) vs p # post \<and>
        (\<forall>ev\<in>set pre. kind ev \<noteq> KCreate \<and> kind ev \<noteq> KUpdate \<and> kind ev \<noteq> KEnd \<and>
                      kind ev \<noteq> KEmit \<and> step_error ev = None) \<and>
        length (filter (\<lambda>ev. kind ev = KEnforce) pre) = length vs \<and>
        (\<forall>ev\<in>set post. kind ev = KUpdate \<or> kind ev = KEnd) \<and>
        (p = Resolved [] \<longrightarrow>
           post = [] \<and> r = Inl (BadRequestError CreateRecordsFail (language (req_meta req)))))"
  using assms
proof (induction rule: body.induct)
  case (transform_failed T e)
  then show ?case by auto
next
  case (enforce_failed T E e)
  then show ?case by auto
next
  case (validate_failed T E vs e)
  then show ?case by (auto simp: pre_write_def)
next
  case (create_rejected T E vs e)
  show ?case
    using split_at_create[where T = T and E = E and vs = vs and post = "[]" and p = "Rejected e"
        and ty = "req_type req" and lang = "language (req_meta req)" and r = "Inl e"]
      create_rejected
    by simp
next
  case (created_empty T E vs)
  show ?case
    using split_at_create[where T = T and E = E and vs = vs and post = "[]" and p = "Resolved []"
        and ty = "req_type req" and lang = "language (req_meta req)"
        and r = "Inl (BadRequestError CreateRecordsFail (language (req_meta req)))"]
      created_empty
    by simp
next
  case (scan_failed T E vs created e)
  show ?case
    using split_at_create[where T = T and E = E and vs = vs and post = "[]"
        and p = "Resolved created"
        and ty = "req_type req" and lang = "language (req_meta req)" and r = "Inl e"]
      scan_failed(1,2)
    by simp
next
  case (update_rejected T E vs created ups e)
  have "\<forall>ev\<in>set (update_events t ups (map fst ups)). kind ev = KUpdate \<or> kind ev = KEnd"
    by (auto dest: update_events_kind)
  then show ?case
    using split_at_create[where T = T and E = E and vs = vs
        and post = "update_events t ups (map fst ups)" and p = "Resolved created"
        and ty = "req_type req" and lang = "language (req_meta req)" and r = "Inl e"]
      update_rejected(1,2)
    by simp
next
  case (commit_rejected T E vs created ups e)
  have "\<forall>ev\<in>set (update_events t ups (map fst ups) @ [EndTransaction None (Rejected e)]).
          kind ev = KUpdate \<or> kind ev = KEnd"
    by (auto dest: update_events_kind)
  then show ?case
    using split_at_create[where T = T and E = E and vs = vs
        and post = "update_events t ups (map fst ups) @ [EndTransaction None (Rejected e)]"
        and p = "Resolved created"
        and ty = "req_type req" and lang = "language (req_meta req)" and r = "Inl e"]
      commit_rejected(1,2)
    by simp
next
  case (committed T E vs created ups)
  have "\<forall>ev\<in>set (update_events t ups (map fst ups) @ [EndTransaction None (Resolved ())]).
          kind ev = KUpdate \<or> kind ev = KEnd"
    by (auto dest: update_events_kind)
  then show ?case
    using split_at_create[where T = T and E = E and vs = vs
        and post = "update_events t ups (map fst ups) @ [EndTransaction None (Resolved ())]"
        and p = "Resolved created"
        and ty = "req_type req" and lang = "language (req_meta req)"
        and r = "Inr (created, ups)"]
      committed(1,2)
    by simp
qed

text \<open>The same split for the log of a whole request.\<close>

lemma run_write:
  assumes "run env req tr r"
  shows "(\<forall>ev\<in>set tr. kind ev \<noteq> KCreate \<and> kind ev \<noteq> KUpdate \<and> kind ev \<noteq> KEmit) \<or>
     (\<exists>pre vs p post. tr = pre @ TxCreate (req_type req) vs p # post \<and>
        (\<forall>ev\<in>set pre. kind ev \<noteq> KCreate \<and> kind ev \<noteq> KUpdate \<and> kind ev \<noteq> KEnd \<and>
                      kind ev \<noteq> KEmit \<and> step_error ev = None) \<and>
        length (filter (\<lambda>ev. kind ev = KEnforce) pre) = length vs \<and>
        (\<forall>ev\<in>set post. kind ev = KUpdate \<or> kind ev = KEnd \<or> kind ev = KEmit) \<and>
        (p = Resolved [] \<longrightarrow>
           r = Inl (BadRequestError CreateRecordsFail (language (req_meta req))) \<and>
           (\<exists>q. post = [EndTransaction
                          (Some (BadRequestError CreateRecordsFail (language (req_meta req)))) q])))"
  using assms
proof (induction rule: run.induct)
  case bad_payload
  then show ?case by simp
next
  case (begin_rejected snap e)
  then show ?case by simp
next
  case (aborted t evs e snap)
  let ?ab = "EndTransaction (Some e) (tx_endTransaction t (Some e))"
  from body_write[OF aborted(2)] show ?case
  proof
    assume "\<forall>ev\<in>set evs. kind ev \<noteq> KCreate \<and> kind ev \<noteq> KUpdate \<and> kind ev \<noteq> KEnd"
    moreover note body_kinds[OF aborted(2)]
    ultimately show ?thesis by auto
  next
    assume "\<exists>pre vs p post. evs = pre @ TxCreate (req_type req) vs p # post \<and>
        (\<forall>ev\<in>set pre. kind ev \<noteq> KCreate \<and> kind ev \<noteq> KUpdate \<and> kind ev \<noteq> KEnd \<and>
                      kind ev \<noteq> KEmit \<and> step_error ev = None) \<and>
        length (filter (\<lambda>ev. kind ev = KEnforce) pre) = length vs \<and>
        (\<forall>ev\<in>set post. kind ev = KUpdate \<or> kind ev = KEnd) \<and>
        (p = Resolved [] \<longrightarrow>
           post = [] \<and> Inl e = (Inl (BadRequestError CreateRecordsFail (language (req_meta req))) :: error + jsobject list \<times> updates))"
    then obtain pre vs p post where
      e: "evs = pre @ TxCreate (req_type req) vs p # post"
      and pre: "\<forall>ev\<in>set pre. kind ev \<noteq> KCreate \<and> kind ev \<noteq> KUpdate \<and> kind ev \<noteq> KEnd \<and>
                      kind ev \<noteq> KEmit \<and> step_error ev = None"
      and n: "length (filter (\<lambda>ev. kind ev = KEnforce) pre) = length vs"
      and post: "\<forall>ev\<in>set post. kind ev = KUpdate \<or> kind ev = KEnd"
      and emp: "p = Resolved [] \<longrightarrow>
           post = [] \<and> e = BadRequestError CreateRecordsFail (language (req_meta req))"
      by auto
    have 1: "BeginTransaction snap None # evs @ [?ab] =
             (BeginTransaction snap None # pre) @ TxCreate (req_type req) vs p # (post @ [?ab])"
      using e by simp
    have 2: "\<forall>ev\<in>set (BeginTransaction snap None # pre).
               kind ev \<noteq> KCreate \<and> kind ev \<noteq> KUpdate \<and> kind ev \<noteq> KEnd \<and>
               kind ev \<noteq> KEmit \<and> step_error ev = None"
      using pre by simp
    have 3: "length (filter (\<lambda>ev. kind ev = KEnforce) (BeginTransaction snap None # pre)) = length vs"
      using n by simp
    have 4: "\<forall>ev\<in>set (post @ [?ab]). kind ev = KUpdate \<or> kind ev = KEnd \<or> kind ev = KEmit"
      using post by auto
    have 5: "p = Resolved [] \<longrightarrow>
           Inl e = (Inl (BadRequestError CreateRecordsFail (language (req_meta req))) :: error + unit) \<and>
           (\<exists>q. post @ [?ab] = [EndTransaction
                          (Some (BadRequestError CreateRecordsFail (language (req_meta req)))) q])"
      using emp by auto
    from 1 2 3 4 5 show ?thesis by blast
  qed
next
  case (emitted t evs created ups snap)
  let ?em = "Emit (event_loop (map fst ups) ups
                   \<lparr>ev_create = [(req_type req, created)], ev_update = None\<rparr>)"
  from body_write[OF emitted(2)] show ?case
  proof
    assume "\<forall>ev\<in>set evs. kind ev \<noteq> KCreate \<and> kind ev \<noteq> KUpdate \<and> kind ev \<noteq> KEnd"
    moreover from emitted(2) have "\<exists>ev\<in>set evs. kind ev = KEnd"
      by (induction evs "Inr (created, ups) :: error + jsobject list \<times> updates" rule: body.induct) auto
    ultimately show ?thesis by blast
  next
    assume "\<exists>pre vs p post. evs = pre @ TxCreate (req_type req) vs p # post \<and>
        (\<forall>ev\<in>set pre. kind ev \<noteq> KCreate \<and> kind ev \<noteq> KUpdate \<and> kind ev \<noteq> KEnd \<and>
                      kind ev \<noteq> KEmit \<and> step_error ev = None) \<and>
        length (filter (\<lambda>ev. kind ev = KEnforce) pre) = length vs \<and>
        (\<forall>ev\<in>set post. kind ev = KUpdate \<or> kind ev = KEnd) \<and>
        (p = Resolved [] \<longrightarrow>
           post = [] \<and> Inr (created, ups) = (Inl (BadRequestError CreateRecordsFail (language (req_meta req))) :: error + jsobject list \<times> updates))"
    then obtain pre vs p post where
      e: "evs = pre @ TxCreate (req_type req) vs p # post"
      and pre: "\<forall>ev\<in>set pre. kind ev \<noteq> KCreate \<and> kind ev \<noteq> KUpdate \<and> kind ev \<noteq> KEnd \<and>
                      kind ev \<noteq> KEmit \<and> step_error ev = None"
      and n: "length (filter (\<lambda>ev. kind ev = KEnforce) pre) = length vs"
      and post: "\<forall>ev\<in>set post. kind ev = KUpdate \<or> kind ev = KEnd"
      and emp: "p \<noteq> Resolved []"
      by auto
    have 1: "BeginTransaction snap None # evs @ [?em] =
             (BeginTransaction snap None # pre) @ TxCreate (req_type req) vs p # (post @ [?em])"
      using e by simp
    have 2: "\<forall>ev\<in>set (BeginTransaction snap None # pre).
               kind ev \<noteq> KCreate \<and> kind ev \<noteq> KUpdate \<and> kind ev \<noteq> KEnd \<and>
               kind ev \<noteq> KEmit \<and> step_error ev = None"
      using pre by simp
    have 3: "length (filter (\<lambda>ev. kind ev = KEnforce) (BeginTransaction snap None # pre)) = length vs"
      using n by simp
    have 4: "\<forall>ev\<in>set (post @ [?em]). kind ev = KUpdate \<or> kind ev = KEnd \<or> kind ev = KEmit"
      using post by auto
    from 1 2 3 4 emp show ?thesis by blast
  qed
qed


lemma set_update_cases:
  "(k', v') \<in> set (AList.update k v al) \<Longrightarrow> (k', v') = (k, v) \<or> (k', v') \<in> set al"
  by (induction al) (auto split: if_splits)

lemma event_loop_entries:
  "ev_update (event_loop tys ups ed) = Some u \<Longrightarrow> (k, ops) \<in> set u \<Longrightarrow>
     (\<exists>u0. ev_update ed = Some u0 \<and> (k, ops) \<in> set u0) \<or>
     (k \<in> set tys \<and> ops = pending ups k \<and> ops \<noteq> [])"
proof (induction tys arbitrary: ed)
  case Nil
  then show ?case by simp
next
  case (Cons ty tys)
  show ?case
  proof (cases "pending ups ty = []")
    case True
    with Cons.prems Cons.IH[of ed] show ?thesis by auto
  next
    case False
    let ?ed = "ed\<lparr>ev_update := Some (AList.update ty (pending ups ty)
                           (case ev_update ed of None \<Rightarrow> [] | Some u \<Rightarrow> u))\<rparr>"
    from Cons.prems False have "ev_update (event_loop tys ups ?ed) = Some u" by simp
    from Cons.IH[OF this Cons.prems(2)] False show ?thesis
      by (auto dest!: set_update_cases split: option.splits)
  qed
qed

lemma event_loop_nonempty:
  "ev_update (event_loop tys ups ed) = Some u \<Longrightarrow>
     (\<forall>u0. ev_update ed = Some u0 \<longrightarrow> u0 \<noteq> []) \<Longrightarrow> u \<noteq> []"
proof (induction tys arbitrary: ed)
  case Nil
  then show ?case by simp
next
  case (Cons ty tys)
  show ?case
  proof (cases "pending ups ty = []")
    case True
    with Cons.prems Cons.IH[of ed] show ?thesis by auto
  next
    case False
    let ?ed = "ed\<lparr>ev_update := Some (AList.update ty (pending ups ty)
                           (case ev_update ed of None \<Rightarrow> [] | Some u \<Rightarrow> u))\<rparr>"
    from Cons.prems False have "ev_update (event_loop tys ups ?ed) = Some u" by simp
    from Cons.IH[OF this] show ?thesis by simp
  qed
qed

lemma event_loop_has:
  "pending ups k \<noteq> [] \<Longrightarrow>
   k \<in> set tys \<or> (\<exists>u0. ev_update ed = Some u0 \<and> map_of u0 k = Some (pending ups k)) \<Longrightarrow>
   \<exists>u. ev_update (event_loop tys ups ed) = Some u \<and> map_of u k = Some (pending ups k)"
proof (induction tys arbitrary: ed)
  case Nil
  then show ?case by simp
next
  case (Cons ty tys)
  show ?case
  proof (cases "pending ups ty = []")
    case True
    with Cons.prems have "k \<in> set tys \<or> (\<exists>u0. ev_update ed = Some u0 \<and> map_of u0 k = Some (pending ups k))"
      by auto
    from Cons.IH[OF Cons.prems(1) this] True show ?thesis by simp
  next
    case False
    let ?ed = "ed\<lparr>ev_update := Some (AList.update ty (pending ups ty)
                           (case ev_update ed of None \<Rightarrow> [] | Some u \<Rightarrow> u))\<rparr>"
    from Cons.prems have "k \<in> set tys \<or> (\<exists>u0. ev_update ?ed = Some u0 \<and> map_of u0 k = Some (pending ups k))"
      by (auto simp: update_conv')
    from Cons.IH[OF Cons.prems(1) this] False show ?thesis by simp
  qed
qed


lemma body_updates:
  assumes "body t req evs r" and "TxUpdate ty ops p \<in> set evs"
  shows "ops \<noteq> []"
  using assms
  by (induction rule: body.induct) (auto simp: update_events_mem pre_write_def)

lemma body_updates_committed:
  assumes "body t req evs (Inr (created, ups))"
  shows "TxUpdate ty ops p \<in> set evs \<longleftrightarrow>
           ty \<in> fst ` set ups \<and> pending ups ty \<noteq> [] \<and> ops = pending ups ty \<and> p = Resolved ()"
  using assms
proof (induction evs "Inr (created, ups) :: error + jsobject list \<times> updates" rule: body.induct)
  case (committed T E vs)
  have 1: "TxUpdate ty ops p \<notin> set T" "TxUpdate ty ops p \<notin> set E"
    using committed(1) by (auto simp: pre_write_def)
  have 2: "tx_update t ty' (pending ups ty') = Resolved ()"
    if "ty' \<in> fst ` set ups" "pending ups ty' \<noteq> []" for ty'
  proof -
    from that have "TxUpdate ty' (pending ups ty') (tx_update t ty' (pending ups ty'))
                      \<in> set (update_events t ups (map fst ups))"
      by (auto simp: update_events_mem)
    with committed(3) show ?thesis
      by (cases "tx_update t ty' (pending ups ty')") auto
  qed
  show ?case
  proof
    assume "TxUpdate ty ops p \<in> set (T @ E @ [ValidateRecords vs None,
              TxCreate (req_type req) vs (Resolved created)] @ update_events t ups (map fst ups)
              @ [EndTransaction None (Resolved ())])"
    with 1 have "TxUpdate ty ops p \<in> set (update_events t ups (map fst ups))" by auto
    then have "ty \<in> fst ` set ups" "pending ups ty \<noteq> []" "ops = pending ups ty"
      "p = tx_update t ty (pending ups ty)"
      by (auto simp: update_events_mem)
    with 2[of ty] show "ty \<in> fst ` set ups \<and> pending ups ty \<noteq> [] \<and> ops = pending ups ty \<and>
        p = Resolved ()" by simp
  next
    assume a: "ty \<in> fst ` set ups \<and> pending ups ty \<noteq> [] \<and> ops = pending ups ty \<and> p = Resolved ()"
    with 2[of ty] have "TxUpdate ty ops p \<in> set (update_events t ups (map fst ups))"
      unfolding update_events_mem by (intro bexI[of _ ty]) auto
    then show "TxUpdate ty ops p \<in> set (T @ E @ [ValidateRecords vs None,
              TxCreate (req_type req) vs (Resolved created)] @ update_events t ups (map fst ups)
              @ [EndTransaction None (Resolved ())])" by simp
  qed
qed








lemma handler_payload_Inl:
  assumes "handler_payload env req s = (s', Inl e)"
  shows "payload req = None \<or> payload req = Some []"
  using assms
  by (auto simp: handler_payload_def Let_def split: option.splits if_splits)










section \<open>The scan of the created records\<close>

lemma pending_update:
  "pending (AList.update t v ups) t' = (if t' = t then v else pending ups t')"
  by (simp add: pending_def update_conv')


lemma target_addId: "target (addId pk op field arr) = target op"
  by (simp add: addId_def)

text \<open>What a reference does to the lists of pending operations.\<close>

lemma add_reference_pending:
  "pending (fst (add_reference pk t i ifield arr uc)) t' =
     (if t' \<noteq> t then pending (fst uc) t'
      else case map_of (cached (snd uc) t) i of
             Some n \<Rightarrow> (pending (fst uc) t)[n := addId pk (pending (fst uc) t ! n) ifield arr]
           | None \<Rightarrow> pending (fst uc) t @ [addId pk \<lparr>target = i, fieldMutations = []\<rparr> ifield arr])"
  by (cases uc) (auto simp: add_reference_def getUpdate_def Let_def pending_update split: option.splits)


lemma add_reference_targets:
  assumes "op \<in> set (pending (fst (add_reference pk t i ifield arr uc)) t')"
  shows "target op \<in> target ` set (pending (fst uc) t') \<or> (t' = t \<and> target op = i)"
proof (cases "t' = t")
  case False
  with assms show ?thesis by (simp add: add_reference_pending)
next
  case True
  show ?thesis
  proof (cases "map_of (cached (snd uc) t) i")
    case None
    with assms True show ?thesis
      by (auto simp: add_reference_pending target_addId)
  next
    case (Some n)
    with assms True
    have "op \<in> set ((pending (fst uc) t)[n := addId pk (pending (fst uc) t ! n) ifield arr])"
      by (simp add: add_reference_pending)
    then have "op \<in> set (pending (fst uc) t) \<or>
               (n < length (pending (fst uc) t) \<and> op = addId pk (pending (fst uc) t ! n) ifield arr)"
      using set_update_subset_insert[of "pending (fst uc) t" n]
      by (cases "n < length (pending (fst uc) t)") (auto simp: list_update_beyond)
    then show ?thesis using True
      by (auto simp: target_addId)
  qed
qed

lemma id_loop_filter:
  "id_loop pk t ifield arr ids uc = id_loop pk t ifield arr (filter (\<lambda>i. i \<noteq> JNull) ids) uc"
  by (induction ids arbitrary: uc) auto

lemma id_loop_targets:
  "op \<in> set (pending (fst (id_loop pk t ifield arr ids uc)) t') \<Longrightarrow>
     target op \<in> target ` set (pending (fst uc) t') \<or>
     (t' = t \<and> target op \<in> set ids \<and> target op \<noteq> JNull)"
proof (induction ids arbitrary: uc)
  case Nil
  then show ?case by simp
next
  case (Cons i ids)
  show ?case
  proof (cases "i = JNull")
    case True
    with Cons.prems have "op \<in> set (pending (fst (id_loop pk t ifield arr ids uc)) t')" by simp
    from Cons.IH[OF this] show ?thesis by auto
  next
    case False
    with Cons.prems
    have "op \<in> set (pending (fst (id_loop pk t ifield arr ids (add_reference pk t i ifield arr uc))) t')"
      by simp
    from Cons.IH[OF this] show ?thesis
    proof
      assume "target op \<in> target ` set (pending (fst (add_reference pk t i ifield arr uc)) t')"
      then obtain op' where "op' \<in> set (pending (fst (add_reference pk t i ifield arr uc)) t')"
        "target op = target op'" by auto
      with add_reference_targets[of op' pk t i ifield arr uc t'] False show ?thesis by auto
    next
      assume "t' = t \<and> target op \<in> set ids \<and> target op \<noteq> JNull"
      then show ?thesis by simp
    qed
  qed
qed

lemma id_loop_all_null:
  "\<forall>i\<in>set ids. i = JNull \<Longrightarrow> id_loop pk t ifield arr ids uc = uc"
  by (induction ids arbitrary: uc) auto

lemma init_pending:
  "pending (case map_of ups t of None \<Rightarrow> AList.update t [] ups | Some ops \<Rightarrow> ups) t' = pending ups t'"
  by (auto simp: pending_def update_conv' split: option.splits)

lemma init_cached:
  "cached (case map_of cache t of None \<Rightarrow> AList.update t [] cache | Some ids \<Rightarrow> cache) t' =
     cached cache t'"
  by (auto simp: cached_def update_conv' split: option.splits)

lemma link_step_cases:
  assumes "link_step env fds r field uc = Inr uc'"
  obtains (skip) fd where "map_of fds field = Some fd"
      "\<not> has_field field r \<or> no_inverse (fd_inverse fd)" "uc' = uc"
  | (scan) fd lt lfs ifd where "map_of fds field = Some fd" "has_field field r"
      "\<not> no_inverse (fd_inverse fd)" "fd_link fd = Some lt"
      "map_of (recordTypes env) lt = Some lfs" "map_of lfs (the (fd_inverse fd)) = Some ifd"
      "uc' = id_loop (get_field r primaryKey) lt (the (fd_inverse fd)) (fd_isArray ifd)
               (rev (linked_ids (get_field r field)))
               (case map_of (fst uc) lt of None \<Rightarrow> AList.update lt [] (fst uc) | Some ops \<Rightarrow> fst uc,
                case map_of (snd uc) lt of None \<Rightarrow> AList.update lt [] (snd uc) | Some ids \<Rightarrow> snd uc)"
  using assms
  by (auto simp: link_step_def split: option.splits if_splits)

lemma link_step_null:
  assumes "link_step env fds r field uc = Inr uc'"
    and "\<forall>fd. map_of fds field = Some fd \<and> \<not> no_inverse (fd_inverse fd) \<and> has_field field r \<longrightarrow>
           (\<forall>i\<in>set (linked_ids (get_field r field)). i = JNull)"
  shows "pending (fst uc') t = pending (fst uc) t \<and> cached (snd uc') t = cached (snd uc) t"
  using assms(1)
proof (cases rule: link_step_cases)
  case (skip fd)
  then show ?thesis by simp
next
  case (scan fd lt lfs ifd)
  with assms(2) have n: "\<forall>i\<in>set (rev (linked_ids (get_field r field))). i = JNull"
    by auto
  show ?thesis
    unfolding scan(7) id_loop_all_null[OF n]
    by (simp add: init_pending init_cached)
qed

lemma link_loop_null:
  assumes "link_loop env fds r links uc = Inr uc'"
    and "\<forall>field\<in>set links. \<forall>fd.
           map_of fds field = Some fd \<and> \<not> no_inverse (fd_inverse fd) \<and> has_field field r \<longrightarrow>
           (\<forall>i\<in>set (linked_ids (get_field r field)). i = JNull)"
  shows "pending (fst uc') t = pending (fst uc) t \<and> cached (snd uc') t = cached (snd uc) t"
  using assms
proof (induction links arbitrary: uc)
  case Nil
  then show ?case by simp
next
  case (Cons field links)
  from Cons.prems(1) obtain uc1 where
    s: "link_step env fds r field uc = Inr uc1" and l: "link_loop env fds r links uc1 = Inr uc'"
    by (auto split: sum.splits)
  from link_step_null[OF s, of t] Cons.prems(2) Cons.IH[OF l] show ?case by auto
qed


lemma record_loop_null:
  assumes "record_loop env fds links m rs uc = Inr uc'"
    and "\<forall>r\<in>set rs. null_links fds links r"
  shows "pending (fst uc') t = pending (fst uc) t \<and> cached (snd uc') t = cached (snd uc) t"
  using assms
proof (induction rs arbitrary: uc)
  case Nil
  then show ?case by simp
next
  case (Cons r rs)
  from Cons.prems(1) obtain uc1 where
    l: "link_loop env fds r (rev links) uc = Inr uc1"
    and rl: "record_loop env fds links m rs uc1 = Inr uc'"
    by (auto split: sum.splits if_splits)
  from Cons.prems(2) have "null_links fds links r" by simp
  then have "\<forall>field\<in>set (rev links). \<forall>fd.
           map_of fds field = Some fd \<and> \<not> no_inverse (fd_inverse fd) \<and> has_field field r \<longrightarrow>
           (\<forall>i\<in>set (linked_ids (get_field r field)). i = JNull)"
    by (simp add: null_links_def)
  from link_loop_null[OF l this, of t] Cons.IH[OF rl] Cons.prems(2) show ?case by simp
qed

lemma event_loop_none:
  "\<forall>t\<in>set tys. pending ups t = [] \<Longrightarrow> event_loop tys ups ed = ed"
  by (induction tys arbitrary: ed) auto






















lemmas create_defs = create_def handler_payload_def handler_begin_def pipeline_def
  handler_transform_def handler_enforce_def enforce_call_def transform_call_def
  handler_create_def handler_created_def handler_commit_def handler_emit_def catch_handler_def
  log_def link_step_def add_reference_def getUpdate_def addId_def pending_def cached_def
  has_field_def get_field_def delete_field_def linked_ids_def no_inverse_def primaryKey_def
  Let_def

lemmas ex_defs = ex_env_def ex_env_stamp_def ex_env_strict_def ex_env_empty_def ex_txn_def ex_txn_empty_def
  ex_txn_bad_abort_def ex_heap_def ex_req_def ex_req_one_def ex_req_null_def ex_req_none_def
  ex_recordTypes_def ex_person_def ex_animal_def ex_created_persons_def ex_created_animals_def
  ex_created_loner_def

section \<open>Bad requests\<close>

text \<open>
  C6. A create request whose payload is missing or an empty sequence fails with the
  bad-request error, and nothing has been asked of the adapter: the log is empty (no
  \<open>BeginTransaction\<close> entry) and the store is as it was.
\<close>

theorem C6_bad_request_before_transaction:
  "payload req = None \<or> payload req = Some [] \<Longrightarrow>
     snd (create env req h) = Inl (BadRequestError CreateRecordsInvalid None) \<and>
     trace (fst (create env req h)) = [] \<and>
     heap (fst (create env req h)) = h"
  by (auto simp: create_def handler_payload_def catch_handler_def)

theorem C6_witness:
  "payload ex_req_none = None \<and>
   snd (create ex_env ex_req_none ex_heap) = Inl (BadRequestError CreateRecordsInvalid None) \<and>
   trace (fst (create ex_env ex_req_none ex_heap)) = []"
proof -
  have p: "payload ex_req_none = None \<or> payload ex_req_none = Some []"
    by (simp add: ex_req_none_def)
  from C6_bad_request_before_transaction[OF p, of ex_env ex_heap] show ?thesis
    by (simp add: ex_req_none_def)
qed

section \<open>Abort on failure\<close>



section \<open>Empty results of the backend\<close>

text \<open>
  C3. When the backend's create call resolves with an empty result, the request fails
  with the error the dispatcher raises for that case, \<open>BadRequestError\<close> with the
  message \<open>CreateRecordsFail\<close> (the backend contract violation; in the code it is of
  the same class as the bad-request error and differs by its message). The create call
  is the only one of the request (it is not retried), no update or commit follows, and
  the next and last entry of the log is the abort with that error.
\<close>

theorem C3_empty_result_aborts:
  assumes "create env req h = (s, r)"
    and "TxCreate ty vs (Resolved []) \<in> set (trace s)"
  shows "r = Inl (BadRequestError CreateRecordsFail (language (req_meta req))) \<and>
     (\<exists>pre q. trace s =
         pre @ [TxCreate ty vs (Resolved []),
                EndTransaction (Some (BadRequestError CreateRecordsFail (language (req_meta req)))) q] \<and>
         (\<forall>ev\<in>set pre. kind ev \<noteq> KCreate \<and> kind ev \<noteq> KUpdate \<and> kind ev \<noteq> KEnd \<and>
                        kind ev \<noteq> KEmit))"
proof -
  let ?c = "TxCreate ty vs (Resolved [])"
  from run_write[OF create_run[OF assms(1)]] assms(2)
  obtain pre vs' p post where
    e: "trace s = pre @ TxCreate (req_type req) vs' p # post"
    and pre: "\<forall>ev\<in>set pre. kind ev \<noteq> KCreate \<and> kind ev \<noteq> KUpdate \<and> kind ev \<noteq> KEnd \<and>
                      kind ev \<noteq> KEmit \<and> step_error ev = None"
    and post: "\<forall>ev\<in>set post. kind ev = KUpdate \<or> kind ev = KEnd \<or> kind ev = KEmit"
    and emp: "p = Resolved [] \<longrightarrow>
           r = Inl (BadRequestError CreateRecordsFail (language (req_meta req))) \<and>
           (\<exists>q. post = [EndTransaction
                          (Some (BadRequestError CreateRecordsFail (language (req_meta req)))) q])"
    by fastforce
  from assms(2) e have "?c \<in> set pre \<or> ?c = TxCreate (req_type req) vs' p \<or> ?c \<in> set post"
    by auto
  with pre post have "?c = TxCreate (req_type req) vs' p" by fastforce
  with e emp pre show ?thesis by auto
qed

theorem C3_witness:
  "TxCreate ''person''
     [[(''name'', JStr ''Ann''), (''pets'', JArr [JStr ''A1''])],
      [(''pets'', JArr [JStr ''A1'', JNull])]] (Resolved [])
     \<in> set (trace (fst (create ex_env_empty ex_req ex_heap))) \<and>
   snd (create ex_env_empty ex_req ex_heap) =
     Inl (BadRequestError CreateRecordsFail (Some ''en''))"
proof -
  have m: "TxCreate ''person''
     [[(''name'', JStr ''Ann''), (''pets'', JArr [JStr ''A1''])],
      [(''pets'', JArr [JStr ''A1'', JNull])]] (Resolved [])
     \<in> set (trace (fst (create ex_env_empty ex_req ex_heap)))"
    by (simp add: create_defs ex_defs)
  from C3_empty_result_aborts[OF surjective_pairing m] m show ?thesis
    by (simp add: ex_req_def)
qed

section \<open>Enforcement comes before the backend create\<close>

text \<open>
  C5. If the enforcement of any record fails, the log has no backend create call. If
  the log has a create call, it splits the log: before it, every enforcement entry is
  a successful one and there are as many of them as records handed to the call; after
  it there is no enforcement, and there is no second create call.
\<close>

theorem C5_enforce_before_create:
  assumes "create env req h = (s, r)"
  shows "((\<exists>ev\<in>set (trace s). kind ev = KEnforce \<and> step_error ev \<noteq> None) \<longrightarrow>
            (\<forall>ev\<in>set (trace s). kind ev \<noteq> KCreate)) \<and>
         (\<forall>ty vs p. TxCreate ty vs p \<in> set (trace s) \<longrightarrow>
            (\<exists>pre post. trace s = pre @ TxCreate ty vs p # post \<and>
               (\<forall>ev\<in>set pre. kind ev = KEnforce \<longrightarrow> step_error ev = None) \<and>
               length (filter (\<lambda>ev. kind ev = KEnforce) pre) = length vs \<and>
               (\<forall>ev\<in>set pre. kind ev \<noteq> KCreate) \<and>
               (\<forall>ev\<in>set post. kind ev \<noteq> KEnforce \<and> kind ev \<noteq> KCreate)))"
proof -
  from run_write[OF create_run[OF assms(1)]] show ?thesis
  proof
    assume "\<forall>ev\<in>set (trace s). kind ev \<noteq> KCreate \<and> kind ev \<noteq> KUpdate \<and> kind ev \<noteq> KEmit"
    then show ?thesis by fastforce
  next
    assume "\<exists>pre vs p post. trace s = pre @ TxCreate (req_type req) vs p # post \<and>
        (\<forall>ev\<in>set pre. kind ev \<noteq> KCreate \<and> kind ev \<noteq> KUpdate \<and> kind ev \<noteq> KEnd \<and>
                      kind ev \<noteq> KEmit \<and> step_error ev = None) \<and>
        length (filter (\<lambda>ev. kind ev = KEnforce) pre) = length vs \<and>
        (\<forall>ev\<in>set post. kind ev = KUpdate \<or> kind ev = KEnd \<or> kind ev = KEmit) \<and>
        (p = Resolved [] \<longrightarrow>
           r = Inl (BadRequestError CreateRecordsFail (language (req_meta req))) \<and>
           (\<exists>q. post = [EndTransaction
                          (Some (BadRequestError CreateRecordsFail (language (req_meta req)))) q]))"
    then obtain pre vs p post where
      e: "trace s = pre @ TxCreate (req_type req) vs p # post"
      and pre: "\<forall>ev\<in>set pre. kind ev \<noteq> KCreate \<and> kind ev \<noteq> KUpdate \<and> kind ev \<noteq> KEnd \<and>
                      kind ev \<noteq> KEmit \<and> step_error ev = None"
      and n: "length (filter (\<lambda>ev. kind ev = KEnforce) pre) = length vs"
      and post: "\<forall>ev\<in>set post. kind ev = KUpdate \<or> kind ev = KEnd \<or> kind ev = KEmit"
      by blast
    have a: "\<not> (\<exists>ev\<in>set (trace s). kind ev = KEnforce \<and> step_error ev \<noteq> None)"
      using e pre post by fastforce
    have b: "\<exists>pre' post'. trace s = pre' @ TxCreate ty' vs' p' # post' \<and>
               (\<forall>ev\<in>set pre'. kind ev = KEnforce \<longrightarrow> step_error ev = None) \<and>
               length (filter (\<lambda>ev. kind ev = KEnforce) pre') = length vs' \<and>
               (\<forall>ev\<in>set pre'. kind ev \<noteq> KCreate) \<and>
               (\<forall>ev\<in>set post'. kind ev \<noteq> KEnforce \<and> kind ev \<noteq> KCreate)"
      if m: "TxCreate ty' vs' p' \<in> set (trace s)" for ty' vs' p'
    proof -
      let ?c = "TxCreate ty' vs' p'"
      from m e have "?c \<in> set pre \<or> ?c = TxCreate (req_type req) vs p \<or> ?c \<in> set post"
        by auto
      with pre post have "?c = TxCreate (req_type req) vs p" by fastforce
      moreover have "\<forall>ev\<in>set post. kind ev \<noteq> KEnforce \<and> kind ev \<noteq> KCreate"
        using post by auto
      ultimately show ?thesis using e pre n by blast
    qed
    from a b show ?thesis by blast
  qed
qed

theorem C5_witness:
  "(\<exists>ev\<in>set (trace (fst (create ex_env_strict ex_req ex_heap))).
      kind ev = KEnforce \<and> step_error ev \<noteq> None) \<and>
   list_all (\<lambda>ev. kind ev \<noteq> KCreate) (trace (fst (create ex_env_strict ex_req ex_heap)))"
proof -
  have a: "\<exists>ev\<in>set (trace (fst (create ex_env_strict ex_req ex_heap))).
             kind ev = KEnforce \<and> step_error ev \<noteq> None"
    by (simp add: create_defs ex_defs)
  from C5_enforce_before_create[OF surjective_pairing, of ex_env_strict ex_req ex_heap] a
  have "\<forall>ev\<in>set (trace (fst (create ex_env_strict ex_req ex_heap))). kind ev \<noteq> KCreate"
    by blast
  then have "list_all (\<lambda>ev. kind ev \<noteq> KCreate) (trace (fst (create ex_env_strict ex_req ex_heap)))"
    by (simp add: list_all_iff)
  with a show ?thesis by (intro conjI)
qed

section \<open>The change event\<close>



section \<open>Types without pending operations\<close>

text \<open>
  C7. No \<open>transaction.update\<close> call of a create request carries an empty list of
  operations, and the change event has no update sub-entry with an empty list: when
  the event has an update entry at all it is not empty, and each of its sub-entries is
  a list of operations that was handed to a resolved update call of the same request.
  Conversely every update call of a successful request shows as a sub-entry. For the
  two loops themselves: a type whose list in the updates map is empty gets no update
  call from the dispatch over the map, and no key in the event's update entry.
\<close>

theorem C7_empty_types_skipped:
  assumes "create env req h = (s, r)"
  shows "(\<forall>ty ops p. TxUpdate ty ops p \<in> set (trace s) \<longrightarrow> ops \<noteq> []) \<and>
         (\<forall>ed u. Emit ed \<in> set (trace s) \<and> ev_update ed = Some u \<longrightarrow>
            u \<noteq> [] \<and>
            (\<forall>(ty, ops)\<in>set u. ops \<noteq> [] \<and> TxUpdate ty ops (Resolved ()) \<in> set (trace s))) \<and>
         (\<forall>ed ty ops p. Emit ed \<in> set (trace s) \<and> TxUpdate ty ops p \<in> set (trace s) \<longrightarrow>
            (\<exists>u. ev_update ed = Some u \<and> map_of u ty = Some ops)) \<and>
         (\<forall>t ups tys s0 ty ops p.
            pending ups ty = [] \<and>
            TxUpdate ty ops p \<in> set (trace (fst (update_calls t ups tys s0))) \<longrightarrow>
            TxUpdate ty ops p \<in> set (trace s0)) \<and>
         (\<forall>tys ups c ty u.
            pending ups ty = [] \<and>
            ev_update (event_loop tys ups \<lparr>ev_create = c, ev_update = None\<rparr>) = Some u \<longrightarrow>
            ty \<notin> fst ` set u)"
proof -
  have calls: "TxUpdate ty ops p \<in> set (trace s0)"
    if "pending ups ty = []" "TxUpdate ty ops p \<in> set (trace (fst (update_calls t ups tys s0)))"
    for t ups tys s0 ty ops p
  proof -
    obtain s' ps where u: "update_calls t ups tys s0 = (s', ps)"
      by (cases "update_calls t ups tys s0")
    from update_calls_run[OF u] that u show ?thesis
      by (auto simp: update_events_mem)
  qed
  have loop: "ty \<notin> fst ` set u"
    if "pending ups ty = []"
       "ev_update (event_loop tys ups \<lparr>ev_create = c, ev_update = None\<rparr>) = Some u"
    for tys ups c ty u
  proof
    assume "ty \<in> fst ` set u"
    then obtain ops where "(ty, ops) \<in> set u" by auto
    from event_loop_entries[OF that(2) this] that(1) show False by simp
  qed
  have tr: "(\<forall>ty ops p. TxUpdate ty ops p \<in> set (trace s) \<longrightarrow> ops \<noteq> []) \<and>
         (\<forall>ed u. Emit ed \<in> set (trace s) \<and> ev_update ed = Some u \<longrightarrow>
            u \<noteq> [] \<and>
            (\<forall>(ty, ops)\<in>set u. ops \<noteq> [] \<and> TxUpdate ty ops (Resolved ()) \<in> set (trace s))) \<and>
         (\<forall>ed ty ops p. Emit ed \<in> set (trace s) \<and> TxUpdate ty ops p \<in> set (trace s) \<longrightarrow>
            (\<exists>u. ev_update ed = Some u \<and> map_of u ty = Some ops))"
    using create_run[OF assms]
  proof (cases rule: run.cases)
    case bad_payload
    then show ?thesis by simp
  next
    case (begin_rejected snap e)
    then show ?thesis by simp
  next
    case (aborted t evs e snap)
    have "\<forall>ev\<in>set (trace s). kind ev \<noteq> KEmit"
      using body_kinds[OF aborted(4)] aborted(1) by auto
    then have "\<forall>ed. Emit ed \<notin> set (trace s)" by fastforce
    moreover have "\<forall>ty ops p. TxUpdate ty ops p \<in> set (trace s) \<longrightarrow> ops \<noteq> []"
      using body_updates[OF aborted(4)] aborted(1) by auto
    ultimately show ?thesis by blast
  next
    case (emitted t evs created ups snap)
    let ?ed = "event_loop (map fst ups) ups \<lparr>ev_create = [(req_type req, created)], ev_update = None\<rparr>"
    note bu = body_updates_committed[OF emitted(4)]
    have em: "Emit ed \<in> set (trace s) \<longleftrightarrow> ed = ?ed" for ed
      using emitted(1) by (auto dest!: body_kinds[OF emitted(4)])
    have up: "TxUpdate ty ops p \<in> set (trace s) \<longleftrightarrow>
           ty \<in> fst ` set ups \<and> pending ups ty \<noteq> [] \<and> ops = pending ups ty \<and> p = Resolved ()"
      for ty ops p
      using emitted(1) bu[of ty ops p] by auto
    have a: "\<forall>ty ops p. TxUpdate ty ops p \<in> set (trace s) \<longrightarrow> ops \<noteq> []"
      using up by auto
    have b1: "u \<noteq> []" if "ev_update ?ed = Some u" for u
      using event_loop_nonempty[OF that] by simp
    have b2: "ops \<noteq> [] \<and> TxUpdate ty ops (Resolved ()) \<in> set (trace s)"
      if "ev_update ?ed = Some u" "(ty, ops) \<in> set u" for u ty ops
      using event_loop_entries[OF that] up[of ty ops "Resolved ()"] by auto
    have c: "\<exists>u. ev_update ?ed = Some u \<and> map_of u ty = Some ops"
      if "TxUpdate ty ops p \<in> set (trace s)" for ty ops p
    proof -
      from that up[of ty ops p] have "ty \<in> set (map fst ups)" "pending ups ty \<noteq> []"
        "ops = pending ups ty" by auto
      with event_loop_has[of ups ty "map fst ups"] show ?thesis by blast
    qed
    have b: "u \<noteq> [] \<and>
            (\<forall>(ty, ops)\<in>set u. ops \<noteq> [] \<and> TxUpdate ty ops (Resolved ()) \<in> set (trace s))"
      if "Emit ed \<in> set (trace s) \<and> ev_update ed = Some u" for ed u
    proof -
      from that em have u: "ev_update ?ed = Some u" by auto
      show ?thesis using b1[OF u] b2[OF u] by auto
    qed
    have c': "\<exists>u. ev_update ed = Some u \<and> map_of u ty = Some ops"
      if "Emit ed \<in> set (trace s) \<and> TxUpdate ty ops p \<in> set (trace s)" for ed ty ops p
    proof -
      from that em have "ed = ?ed" by auto
      with c[of ty ops p] that show ?thesis by auto
    qed
    show ?thesis
    proof (intro conjI allI impI)
      fix ty ops p assume "TxUpdate ty ops p \<in> set (trace s)"
      with a show "ops \<noteq> []" by blast
    next
      fix ed u assume "Emit ed \<in> set (trace s) \<and> ev_update ed = Some u"
      from b[OF this] show "u \<noteq> []" by simp
    next
      fix ed u assume "Emit ed \<in> set (trace s) \<and> ev_update ed = Some u"
      from b[OF this]
      show "\<forall>(ty, ops)\<in>set u. ops \<noteq> [] \<and> TxUpdate ty ops (Resolved ()) \<in> set (trace s)"
        by simp
    next
      fix ed ty ops p
      assume "Emit ed \<in> set (trace s) \<and> TxUpdate ty ops p \<in> set (trace s)"
      from c'[OF this] show "\<exists>u. ev_update ed = Some u \<and> map_of u ty = Some ops" .
    qed
  qed
  show ?thesis
  proof (intro conjI)
    show "\<forall>t ups tys s0 ty ops p.
            pending ups ty = [] \<and>
            TxUpdate ty ops p \<in> set (trace (fst (update_calls t ups tys s0))) \<longrightarrow>
            TxUpdate ty ops p \<in> set (trace s0)"
      using calls by blast
    show "\<forall>tys ups c ty u.
            pending ups ty = [] \<and>
            ev_update (event_loop tys ups \<lparr>ev_create = c, ev_update = None\<rparr>) = Some u \<longrightarrow>
            ty \<notin> fst ` set u"
      using loop by blast
  qed (use tr in simp_all)
qed

theorem C7_witness:
  "(\<exists>ops p. TxUpdate ''animal'' ops p \<in> set (trace (fst (create ex_env ex_req ex_heap)))) \<and>
   list_all (\<lambda>ev. \<forall>ty ops p. ev = TxUpdate ty ops p \<longrightarrow> ops \<noteq> [])
     (trace (fst (create ex_env ex_req ex_heap))) \<and>
   pending [(''animal'', []), (''person'', [\<lparr>target = JNum 7, fieldMutations = []\<rparr>])] ''animal'' = [] \<and>
   ev_update (event_loop [''animal'', ''person'']
                [(''animal'', []), (''person'', [\<lparr>target = JNum 7, fieldMutations = []\<rparr>])]
                \<lparr>ev_create = [], ev_update = None\<rparr>) =
     Some [(''person'', [\<lparr>target = JNum 7, fieldMutations = []\<rparr>])] \<and>
   ''animal'' \<notin> fst ` set [(''person'', [\<lparr>target = JNum 7, fieldMutations = []\<rparr>])]"
proof -
  let ?ups = "[(''animal'', []), (''person'', [\<lparr>target = JNum 7, fieldMutations = []\<rparr>])]"
  have e: "\<exists>ops p. TxUpdate ''animal'' ops p \<in> set (trace (fst (create ex_env ex_req ex_heap)))"
    by (simp add: create_defs ex_defs enumerate_eq_zip)
  have p: "pending ?ups ''animal'' = []" by (simp add: pending_def)
  have l: "ev_update (event_loop [''animal'', ''person''] ?ups \<lparr>ev_create = [], ev_update = None\<rparr>) =
     Some [(''person'', [\<lparr>target = JNum 7, fieldMutations = []\<rparr>])]"
    by (simp add: pending_def)
  note c7 = C7_empty_types_skipped[OF surjective_pairing, of ex_env ex_req ex_heap]
  from c7 have t1: "\<forall>ty ops p. TxUpdate ty ops p \<in> set (trace (fst (create ex_env ex_req ex_heap))) \<longrightarrow>
      ops \<noteq> []" by (rule conjunct1)
  then have t1': "list_all (\<lambda>ev. \<forall>ty ops p. ev = TxUpdate ty ops p \<longrightarrow> ops \<noteq> [])
     (trace (fst (create ex_env ex_req ex_heap)))"
    unfolding list_all_iff by blast
  from c7 have t5: "\<forall>tys ups c ty u.
            pending ups ty = [] \<and>
            ev_update (event_loop tys ups \<lparr>ev_create = c, ev_update = None\<rparr>) = Some u \<longrightarrow>
            ty \<notin> fst ` set u" by (elim conjE)
  from t5 p l have n: "''animal'' \<notin> fst ` set [(''person'', [\<lparr>target = JNum 7, fieldMutations = []\<rparr>])]"
    by blast
  from e t1' p l n show ?thesis by (intro conjI)
qed

section \<open>Denormalized inverse fields\<close>



section \<open>The caller's records\<close>



section \<open>Null identifiers\<close>

text \<open>
  C9. In the loop over the identifiers of a link value, a null identifier does
  nothing: the loop gives what it gives on the identifiers that are not null, and every
  operation it leaves behind is for a target that had one before or for one of the
  non-null identifiers. For a created record whose link fields with a declared
  inverse are all absent, null or arrays of nulls, the scan of the record leaves the
  pending operations of every type as they were (it may file an empty list under a
  linked type, which stays without operations). When all created records are such,
  no type has a pending operation, the dispatch over the map makes no update call and
  the change event gets no update entry.
\<close>

theorem C9_null_links_add_nothing:
  "id_loop pk t ifield arr ids uc = id_loop pk t ifield arr (filter (\<lambda>i. i \<noteq> JNull) ids) uc \<and>
   (\<forall>t' op. op \<in> set (pending (fst (id_loop pk t ifield arr ids uc)) t') \<longrightarrow>
      target op \<in> target ` set (pending (fst uc) t') \<or>
      (t' = t \<and> target op \<in> set ids \<and> target op \<noteq> JNull)) \<and>
   (link_loop env fds r links uc = Inr uc' \<and> null_links fds links r \<longrightarrow>
      (\<forall>t'. pending (fst uc') t' = pending (fst uc) t')) \<and>
   (record_loop env fds links m rs ([], []) = Inr (ups, cache) \<and>
    (\<forall>r\<in>set rs. null_links fds links r) \<longrightarrow>
      (\<forall>t'. pending ups t' = []) \<and>
      update_events tx ups (map fst ups) = [] \<and>
      ev_update (event_loop (map fst ups) ups \<lparr>ev_create = c, ev_update = None\<rparr>) = None)"
proof (intro conjI impI allI)
  show "id_loop pk t ifield arr ids uc = id_loop pk t ifield arr (filter (\<lambda>i. i \<noteq> JNull) ids) uc"
    by (rule id_loop_filter)
next
  fix t' op
  assume "op \<in> set (pending (fst (id_loop pk t ifield arr ids uc)) t')"
  then show "target op \<in> target ` set (pending (fst uc) t') \<or>
      (t' = t \<and> target op \<in> set ids \<and> target op \<noteq> JNull)"
    by (rule id_loop_targets)
next
  fix t'
  assume a: "link_loop env fds r links uc = Inr uc' \<and> null_links fds links r"
  then have "\<forall>field\<in>set links. \<forall>fd.
           map_of fds field = Some fd \<and> \<not> no_inverse (fd_inverse fd) \<and> has_field field r \<longrightarrow>
           (\<forall>i\<in>set (linked_ids (get_field r field)). i = JNull)"
    by (simp add: null_links_def)
  from link_loop_null[OF a[THEN conjunct1] this, of t']
  show "pending (fst uc') t' = pending (fst uc) t'" by simp
next
  assume a: "record_loop env fds links m rs ([], []) = Inr (ups, cache) \<and>
    (\<forall>r\<in>set rs. null_links fds links r)"
  have p: "pending ups t' = []" for t'
    using record_loop_null[OF a[THEN conjunct1] a[THEN conjunct2], of t']
    by (simp add: pending_def)
  { fix t' show "pending ups t' = []" by (rule p) }
  show "update_events tx ups (map fst ups) = []"
    by (simp add: update_events_def p)
  show "ev_update (event_loop (map fst ups) ups \<lparr>ev_create = c, ev_update = None\<rparr>) = None"
    by (simp add: event_loop_none p)
qed

theorem C9_witness:
  "null_links ex_person [''pets'', ''admirers''] ex_created_loner \<and>
   link_loop ex_env ex_person ex_created_loner [''admirers'', ''pets''] ([], []) =
     Inr ([(''animal'', [])], [(''animal'', [])]) \<and>
   pending [(''animal'', [])] ''animal'' = pending [] ''animal'' \<and>
   id_loop (JNum 2) ''animal'' ''owner'' (Some False) [JNull, JStr ''A1''] ([], []) =
     id_loop (JNum 2) ''animal'' ''owner'' (Some False) [JStr ''A1''] ([], [])"
proof -
  have n: "null_links ex_person [''pets'', ''admirers''] ex_created_loner"
    by (simp add: null_links_def create_defs ex_defs)
  have l: "link_loop ex_env ex_person ex_created_loner [''admirers'', ''pets''] ([], []) =
     Inr ([(''animal'', [])], [(''animal'', [])])"
    by (simp add: create_defs ex_defs)
  note c9 = C9_null_links_add_nothing[where env = ex_env and fds = ex_person
      and r = ex_created_loner and links = "[''admirers'', ''pets'']" and uc = "([], [])"
      and uc' = "([(''animal'', [])], [(''animal'', [])])"
      and pk = "JNum 2" and t = "''animal''" and ifield = "''owner''" and arr = "Some False"
      and ids = "[JNull, JStr ''A1'']"]
  have n': "null_links ex_person [''admirers'', ''pets''] ex_created_loner"
    using n by (auto simp: null_links_def)
  from c9 l n' have p: "pending [(''animal'', [])] ''animal'' = pending [] ''animal''"
    by simp
  from c9 have f: "id_loop (JNum 2) ''animal'' ''owner'' (Some False) [JNull, JStr ''A1''] ([], []) =
     id_loop (JNum 2) ''animal'' ''owner'' (Some False) [JStr ''A1''] ([], [])"
    by simp
  from n l p f show ?thesis by (intro conjI)
qed

section \<open>One operation per target\<close>




end
